theory Spec2Isabelle
  imports Complex_Main "HOL-Library.Product_Lexorder" "HOL-Library.List_Lexorder"
    "HOL-Library.Char_ord" "HOL-Library.AList" "HOL-Library.Monad_Syntax"
begin

section \<open>Data model of presidio\_summarizer.py\<close>

text \<open>
  Python strings are lists of characters, compared lexicographically by code point
  (\<open>List_Lexorder\<close> over \<open>Char_ord\<close>); the model covers code points below 256.
  Python integers are \<open>int\<close>. Scores are Python floats; they are modelled as exact
  reals, so rounding is outside the model and the statements below are about the
  arithmetic expression the code evaluates. Every detection carries an
  \<open>analysis_explanation\<close> object whose \<open>textual_explanation\<close> is a string, as the
  interface of the specification has it.

  Three record shapes occur in the source:
  \<^item> the attribute objects handed in by the analyzer (\<open>result.start\<close>, \<open>result.end\<close>,
    \<open>result.entity_type\<close>, \<open>result.score\<close>, \<open>result.analysis_explanation\<close>);
  \<^item> the dictionaries \<open>summarize_pii\<close> builds from them and \<open>merge_entities\<close> reads
    (keys \<open>word\<close>, \<open>start\<close>, \<open>end\<close>, \<open>entity_type\<close>, \<open>score\<close>, \<open>analysis_explanation\<close>);
  \<^item> the dictionaries \<open>merge_entities\<close> builds and \<open>merge_consecutive_entities\<close>
    reads and returns (keys \<open>word\<close>, \<open>start\<close>, \<open>end\<close>, \<open>type\<close>, \<open>score\<close>, \<open>explanation\<close>).
  Each is a record; the prefixes \<open>r_\<close>, \<open>p_\<close> and \<open>e_\<close> keep the field names apart.
\<close>

record AnalysisExplanation =
  textual_explanation :: string

record RecognizerResult =
  r_start :: int
  r_end :: int
  r_entity_type :: string
  r_score :: real
  r_analysis_explanation :: AnalysisExplanation

record prediction =
  p_word :: string
  p_start :: int
  p_end :: int
  p_entity_type :: string
  p_score :: real
  p_analysis_explanation :: AnalysisExplanation

record entity =
  e_word :: string
  e_start :: int
  e_end :: int
  e_type :: string
  e_score :: real
  e_explanation :: string

section \<open>Python primitives used by the source\<close>

text \<open>
  A Python \<open>set\<close> of strings is kept as the list of its distinct members in the order
  they were first added; \<open>set_add\<close> is \<open>s.add(x)\<close>. \<open>sorted(s)\<close> is \<open>sort\<close> of that list.
\<close>

definition set_add :: "'a \<Rightarrow> 'a list \<Rightarrow> 'a list" where
  "set_add x s = (if x \<in> set s then s else s @ [x])"

text \<open>\<open>sep.join(xs)\<close>\<close>

fun join :: "string \<Rightarrow> string list \<Rightarrow> string" where
  "join sep [] = []"
| "join sep [x] = x"
| "join sep (x # y # ys) = x @ sep @ join sep (y # ys)"

text \<open>
  \<open>s.split(sep)\<close> for a non-empty separator: the text is cut at the leftmost occurrences
  of \<open>sep\<close>, which do not overlap; \<open>piece\<close> is the part read since the last cut.
\<close>

function split_from :: "string \<Rightarrow> string \<Rightarrow> string \<Rightarrow> string list" where
  "split_from sep piece [] = [piece]"
| "split_from sep piece (c # cs) =
     (if sep \<noteq> [] \<and> take (length sep) (c # cs) = sep
      then piece # split_from sep [] (drop (length sep) (c # cs))
      else split_from sep (piece @ [c]) cs)"
  by pat_completeness auto
termination
  by (relation "measure (\<lambda>(sep, piece, s). length s)") auto

definition split :: "string \<Rightarrow> string \<Rightarrow> string list" where
  "split sep s = split_from sep [] s"

text \<open>\<open>set(xs)\<close> and \<open>a.union(b)\<close> on that representation of sets.\<close>

definition py_set :: "'a list \<Rightarrow> 'a list" where
  "py_set xs = fold set_add xs []"

definition set_union :: "'a list \<Rightarrow> 'a list \<Rightarrow> 'a list" where
  "set_union a b = fold set_add b a"

text \<open>
  \<open>text[i:j]\<close>: a negative index counts from the end, and both indices are clamped to
  the text.
\<close>

definition slice_index :: "nat \<Rightarrow> int \<Rightarrow> nat" where
  "slice_index len i = (if i < 0 then nat (int len + i) else min len (nat i))"

definition py_slice :: "'a list \<Rightarrow> int \<Rightarrow> int \<Rightarrow> 'a list" where
  "py_slice xs i j =
     (let lo = slice_index (length xs) i; hi = slice_index (length xs) j
      in take (hi - lo) (drop lo xs))"

text \<open>\<open>s.strip()\<close>: the characters below 256 for which \<open>str.isspace\<close> holds are removed at both ends.\<close>

definition isspace :: "char \<Rightarrow> bool" where
  "isspace c = ((of_char c :: nat) \<in> {9, 10, 11, 12, 13, 28, 29, 30, 31, 32, 133, 160})"

definition strip :: "string \<Rightarrow> string" where
  "strip s = rev (dropWhile isspace (rev (dropWhile isspace s)))"

section \<open>merge\_entities\<close>

text \<open>Lines 16-25: the dictionary built for every prediction.\<close>

definition flatten :: "prediction \<Rightarrow> entity" where
  "flatten p =
     \<lparr> e_word = p_word p, e_start = p_start p, e_end = p_end p,
       e_type = p_entity_type p, e_score = p_score p,
       e_explanation = textual_explanation (p_analysis_explanation p) \<rparr>"

text \<open>Line 27: the sort key \<open>(x['start'], -x['score'])\<close>; Python's sort is stable, as is \<open>sort_key\<close>.\<close>

definition sort_key_of :: "entity \<Rightarrow> int \<times> real" where
  "sort_key_of x = (e_start x, - e_score x)"

text \<open>
  Lines 29-35: the sweep's local variables. \<open>current_word is None\<close> holds exactly until the
  first entity has been read, and the other variables are not read before that, so the
  state is \<open>None\<close> before the first entity and \<open>Some\<close> of the six variables after it.
  \<open>current_explanation\<close> is a set of strings here, and a reference to one in the model
  with a store further down.
\<close>

record 's cluster =
  current_word :: string
  current_start :: int
  current_end :: int
  current_type :: string
  current_score :: real
  current_explanation :: 's

text \<open>Lines 39-44 and 63-68: a cluster is opened from an entity.\<close>

definition open_cluster :: "entity \<Rightarrow> string list cluster" where
  "open_cluster x =
     \<lparr> current_word = e_word x, current_start = e_start x, current_end = e_end x,
       current_type = e_type x, current_score = e_score x,
       current_explanation = [e_explanation x] \<rparr>"

text \<open>Lines 54-62 and 71-79: the dictionary appended for a cluster.\<close>

definition close_cluster :: "string list cluster \<Rightarrow> entity" where
  "close_cluster c =
     \<lparr> e_word = current_word c, e_start = current_start c, e_end = current_end c,
       e_type = current_type c, e_score = current_score c,
       e_explanation = join '' and '' (sort (current_explanation c)) \<rparr>"

text \<open>Lines 46-52: an overlapping entity is folded into the cluster.\<close>

definition absorb :: "string list cluster \<Rightarrow> entity \<Rightarrow> string list cluster" where
  "absorb c x =
     (let c' = (if e_score x > current_score c
                then c \<lparr> current_word := current_word c @ '' '' @ e_word x,
                         current_end := e_end x,
                         current_type := e_type x,
                         current_score := e_score x \<rparr>
                else c)
      in c' \<lparr> current_explanation := set_add (e_explanation x) (current_explanation c') \<rparr>)"

text \<open>Lines 37-68: the loop, with \<open>merged_entities\<close> and the cluster as its state.\<close>

fun sweep ::
  "entity list \<Rightarrow> string list cluster option \<Rightarrow> entity list
   \<Rightarrow> entity list \<times> string list cluster option" where
  "sweep merged_entities cur [] = (merged_entities, cur)"
| "sweep merged_entities None (x # xs) = sweep merged_entities (Some (open_cluster x)) xs"
| "sweep merged_entities (Some c) (x # xs) =
     (if e_start x < current_end c
      then sweep merged_entities (Some (absorb c x)) xs
      else sweep (merged_entities @ [close_cluster c]) (Some (open_cluster x)) xs)"

definition merge_entities :: "prediction list \<Rightarrow> entity list" where
  "merge_entities predictions =
     (let flattened_predictions = sort_key sort_key_of (map flatten predictions)
      in case sweep [] None flattened_predictions of
           (merged_entities, None) \<Rightarrow> merged_entities
         | (merged_entities, Some c) \<Rightarrow> merged_entities @ [close_cluster c])"

section \<open>merge\_consecutive\_entities\<close>

text \<open>Lines 95-100: the next entity is fused into \<open>current_entity\<close>.\<close>

definition fuse :: "entity \<Rightarrow> entity \<Rightarrow> entity" where
  "fuse current_entity x =
     (let current_explanation_set = py_set (split '' and '' (e_explanation current_entity));
          new_explanation_set = py_set (split '' and '' (e_explanation x))
      in current_entity
           \<lparr> e_word := e_word current_entity @ e_word x,
             e_end := e_end x,
             e_score := (e_score current_entity + e_score x) / 2,
             e_explanation :=
               join '' and '' (sort (set_union current_explanation_set new_explanation_set)) \<rparr>)"

text \<open>Lines 92-103: the loop over \<open>entities[1:]\<close>, with \<open>merged_entities\<close> and \<open>current_entity\<close> as its state.\<close>

fun consecutive_loop :: "entity list \<Rightarrow> entity \<Rightarrow> entity list \<Rightarrow> entity list \<times> entity" where
  "consecutive_loop merged_entities current_entity [] = (merged_entities, current_entity)"
| "consecutive_loop merged_entities current_entity (x # xs) =
     (if e_type x = e_type current_entity \<and> e_start x = e_end current_entity
      then consecutive_loop merged_entities (fuse current_entity x) xs
      else consecutive_loop (merged_entities @ [current_entity]) x xs)"

definition merge_consecutive_entities :: "entity list \<Rightarrow> entity list" where
  "merge_consecutive_entities entities =
     (case entities of
        [] \<Rightarrow> []
      | first # rest \<Rightarrow>
          (case consecutive_loop [] first rest of
             (merged_entities, current_entity) \<Rightarrow> merged_entities @ [current_entity]))"

section \<open>summarize\_pii\<close>

definition word_prediction :: "string \<Rightarrow> RecognizerResult \<Rightarrow> prediction" where
  "word_prediction text result =
     \<lparr> p_word = strip (py_slice text (r_start result) (r_end result)),
       p_start = r_start result, p_end = r_end result,
       p_entity_type = r_entity_type result, p_score = r_score result,
       p_analysis_explanation = r_analysis_explanation result \<rparr>"

definition summarize_pii :: "RecognizerResult list \<Rightarrow> string \<Rightarrow> entity list" where
  "summarize_pii presidio_results text =
     (let word_predictions = map (word_prediction text) presidio_results;
          merged_entities = merge_entities word_predictions;
          final_entities = merge_consecutive_entities merged_entities
      in final_entities)"

section \<open>summarize\_pii\_batch\<close>

text \<open>
  A batch item exposes \<open>key\<close>, \<open>value\<close> and \<open>recognizer_results\<close>. The dictionaries
  \<open>pii_scores\<close>, \<open>pii_explanations\<close> and the two dictionaries of the output are association
  lists in insertion order, which is the order a Python dictionary iterates in;
  \<open>AList.update\<close> overwrites a key in place or appends it, as an assignment does.

  The order in which a Python set of strings iterates depends on the strings' hashes.
  It is the parameter \<open>set_iter\<close>, which maps the members in insertion order to the
  order of iteration.
\<close>

record DictAnalyzerResult =
  d_key :: string
  d_value :: "string list"
  d_recognizer_results :: "RecognizerResult list list"

record score_entry =
  total_score :: real
  count :: nat

record summary =
  s_column :: string
  s_n :: nat
  s_avg_scores :: "(string \<times> real) list"
  s_explanation :: "(string \<times> string) list"

datatype error = ZeroDivisionError

type_synonym accumulators = "(string \<times> score_entry) list \<times> (string \<times> string list) list"

text \<open>Lines 145-158: one detection is added to \<open>pii_scores\<close> and \<open>pii_explanations\<close>.\<close>

definition accumulate :: "RecognizerResult \<Rightarrow> accumulators \<Rightarrow> accumulators" where
  "accumulate result acc =
     (case acc of (pii_scores, pii_explanations) \<Rightarrow>
        let pii_type = r_entity_type result;
            score = r_score result;
            pii_explanation = textual_explanation (r_analysis_explanation result)
        in ((case map_of pii_scores pii_type of
               Some entry \<Rightarrow>
                 AList.update pii_type
                   (entry \<lparr> total_score := total_score entry + score,
                            count := count entry + 1 \<rparr>) pii_scores
             | None \<Rightarrow>
                 AList.update pii_type \<lparr> total_score = score, count = 1 \<rparr> pii_scores),
            (case map_of pii_explanations pii_type of
               Some explanations \<Rightarrow>
                 AList.update pii_type (set_add pii_explanation explanations) pii_explanations
             | None \<Rightarrow> AList.update pii_type [pii_explanation] pii_explanations)))"

text \<open>Lines 143-144: the two nested loops.\<close>

definition accumulate_all :: "RecognizerResult list list \<Rightarrow> accumulators" where
  "accumulate_all recognizer_results =
     fold (\<lambda>results acc. fold accumulate results acc) recognizer_results ([], [])"

text \<open>
  Lines 161-162: the comprehension of the averages. The division raises
  \<open>ZeroDivisionError\<close> when the count is zero.
\<close>

fun averages :: "(string \<times> score_entry) list \<Rightarrow> error + (string \<times> real) list" where
  "averages [] = Inr []"
| "averages ((pii_type, scores) # rest) =
     (if count scores = 0 then Inl ZeroDivisionError
      else case averages rest of
             Inl e \<Rightarrow> Inl e
           | Inr avgs \<Rightarrow> Inr ((pii_type, total_score scores / real (count scores)) # avgs))"

text \<open>Lines 164-165: the comprehension of the combined explanations.\<close>

definition combined_explanations ::
  "(string list \<Rightarrow> string list) \<Rightarrow> (string \<times> string list) list \<Rightarrow> (string \<times> string) list" where
  "combined_explanations set_iter pii_explanations =
     map (\<lambda>(pii_type, explanations). (pii_type, join '' and '' (set_iter explanations)))
       pii_explanations"

text \<open>Lines 136-172: the body of the loop over the items.\<close>

definition summarize_item ::
  "(string list \<Rightarrow> string list) \<Rightarrow> DictAnalyzerResult \<Rightarrow> error + summary" where
  "summarize_item set_iter item =
     (case accumulate_all (d_recognizer_results item) of
        (pii_scores, pii_explanations) \<Rightarrow>
          (case averages pii_scores of
             Inl e \<Rightarrow> Inl e
           | Inr pii_avg_scores \<Rightarrow>
               Inr \<lparr> s_column = d_key item, s_n = length (d_value item),
                     s_avg_scores = pii_avg_scores,
                     s_explanation = combined_explanations set_iter pii_explanations \<rparr>))"

fun batch_loop ::
  "(string list \<Rightarrow> string list) \<Rightarrow> summary list \<Rightarrow> DictAnalyzerResult list \<Rightarrow> error + summary list" where
  "batch_loop set_iter output [] = Inr output"
| "batch_loop set_iter output (item # items) =
     (case summarize_item set_iter item of
        Inl e \<Rightarrow> Inl e
      | Inr s \<Rightarrow> batch_loop set_iter (output @ [s]) items)"

definition summarize_pii_batch ::
  "(string list \<Rightarrow> string list) \<Rightarrow> DictAnalyzerResult list \<Rightarrow> error + summary list" where
  "summarize_pii_batch set_iter presidio_results = batch_loop set_iter [] presidio_results"

section \<open>The two mergers on a store\<close>

text \<open>
  To state what a call leaves unchanged, the dictionaries, lists and sets of the source
  are objects in a store, and a variable holds a reference: an index into the store. A new
  object is put at the end of the store. A read of a reference that does not hold the
  expected kind of object ends the run (\<open>None\<close>), as the \<open>TypeError\<close> or \<open>KeyError\<close> would.
  Strings, integers and floats are immutable in Python and stay values. The
  \<open>analysis_explanation\<close> object is only read and stays a value inside its dictionary.
\<close>

type_synonym addr = nat

datatype obj =
    DetectionDict prediction
  | EntityDict entity
  | ListObj "addr list"
  | SetObj "string list"

type_synonym store = "obj list"

definition lookup :: "store \<Rightarrow> addr \<Rightarrow> obj option" where
  "lookup h a = (if a < length h then Some (h ! a) else None)"

definition get_detection :: "store \<Rightarrow> addr \<Rightarrow> prediction option" where
  "get_detection h a = (case lookup h a of Some (DetectionDict p) \<Rightarrow> Some p | _ \<Rightarrow> None)"

definition get_entity :: "store \<Rightarrow> addr \<Rightarrow> entity option" where
  "get_entity h a = (case lookup h a of Some (EntityDict x) \<Rightarrow> Some x | _ \<Rightarrow> None)"

definition get_list :: "store \<Rightarrow> addr \<Rightarrow> addr list option" where
  "get_list h a = (case lookup h a of Some (ListObj xs) \<Rightarrow> Some xs | _ \<Rightarrow> None)"

definition get_set :: "store \<Rightarrow> addr \<Rightarrow> string list option" where
  "get_set h a = (case lookup h a of Some (SetObj s) \<Rightarrow> Some s | _ \<Rightarrow> None)"

text \<open>A display \<open>{...}\<close>, \<open>[]\<close>, \<open>set()\<close> or a \<open>.copy()\<close> makes a new object.\<close>

definition alloc :: "obj \<Rightarrow> store \<Rightarrow> addr \<times> store" where
  "alloc v h = (length h, h @ [v])"

text \<open>\<open>l.append(x)\<close>, \<open>s.add(x)\<close> and \<open>d[key] = v\<close> write into the object referred to.\<close>

definition list_append :: "addr \<Rightarrow> addr \<Rightarrow> store \<Rightarrow> store option" where
  "list_append l x h =
     (case get_list h l of
        Some xs \<Rightarrow> Some (h[l := ListObj (xs @ [x])])
      | None \<Rightarrow> None)"

definition set_add_st :: "addr \<Rightarrow> string \<Rightarrow> store \<Rightarrow> store option" where
  "set_add_st s x h =
     (case get_set h s of
        Some xs \<Rightarrow> Some (h[s := SetObj (set_add x xs)])
      | None \<Rightarrow> None)"

definition set_item :: "addr \<Rightarrow> (entity \<Rightarrow> entity) \<Rightarrow> store \<Rightarrow> store option" where
  "set_item d f h =
     (case get_entity h d of
        Some x \<Rightarrow> Some (h[d := EntityDict (f x)])
      | None \<Rightarrow> None)"

subsection \<open>merge\_consecutive\_entities\<close>

text \<open>
  Lines 95-100: four assignments to keys of \<open>current_entity\<close>, each reading the two
  dictionaries as they are at that moment.
\<close>

definition fuse_in_place :: "addr \<Rightarrow> addr \<Rightarrow> store \<Rightarrow> store option" where
  "fuse_in_place current_entity entity h =
     do {
       c \<leftarrow> get_entity h current_entity;
       x \<leftarrow> get_entity h entity;
       h1 \<leftarrow> set_item current_entity (\<lambda>d. d \<lparr> e_word := e_word c @ e_word x \<rparr>) h;
       x1 \<leftarrow> get_entity h1 entity;
       h2 \<leftarrow> set_item current_entity (\<lambda>d. d \<lparr> e_end := e_end x1 \<rparr>) h1;
       c2 \<leftarrow> get_entity h2 current_entity;
       x2 \<leftarrow> get_entity h2 entity;
       h3 \<leftarrow> set_item current_entity (\<lambda>d. d \<lparr> e_score := (e_score c2 + e_score x2) / 2 \<rparr>) h2;
       c3 \<leftarrow> get_entity h3 current_entity;
       x3 \<leftarrow> get_entity h3 entity;
       set_item current_entity
         (\<lambda>d. d \<lparr> e_explanation :=
                   join '' and ''
                     (sort (set_union (py_set (split '' and '' (e_explanation c3)))
                                      (py_set (split '' and '' (e_explanation x3))))) \<rparr>) h3
     }"

text \<open>
  Lines 92-103: the loop over the indices \<open>range(1, len(entities))\<close>; \<open>entities[i]\<close> is read
  from the store in every round. The result is the reference held by \<open>current_entity\<close>
  after the loop, and the store.
\<close>

fun consecutive_loop_st ::
  "addr \<Rightarrow> addr \<Rightarrow> addr \<Rightarrow> nat list \<Rightarrow> store \<Rightarrow> (addr \<times> store) option" where
  "consecutive_loop_st entities merged_entities current_entity [] h = Some (current_entity, h)"
| "consecutive_loop_st entities merged_entities current_entity (i # rest) h =
     do {
       es \<leftarrow> get_list h entities;
       entity \<leftarrow> (if i < length es then Some (es ! i) else None);
       x \<leftarrow> get_entity h entity;
       c \<leftarrow> get_entity h current_entity;
       if e_type x = e_type c \<and> e_start x = e_end c
       then do {
         h1 \<leftarrow> fuse_in_place current_entity entity h;
         consecutive_loop_st entities merged_entities current_entity rest h1
       }
       else do {
         h1 \<leftarrow> list_append merged_entities current_entity h;
         x' \<leftarrow> get_entity h1 entity;
         let (copy, h2) = alloc (EntityDict x') h1;
         consecutive_loop_st entities merged_entities copy rest h2
       }
     }"

text \<open>Lines 88-105. The result is the reference to the list returned, and the store.\<close>

definition merge_consecutive_entities_st :: "addr \<Rightarrow> store \<Rightarrow> (addr \<times> store) option" where
  "merge_consecutive_entities_st entities h =
     do {
       es \<leftarrow> get_list h entities;
       if es = [] then Some (alloc (ListObj []) h)
       else do {
         let (merged_entities, h1) = alloc (ListObj []) h;
         es1 \<leftarrow> get_list h1 entities;
         first \<leftarrow> get_entity h1 (es1 ! 0);
         let (current_entity, h2) = alloc (EntityDict first) h1;
         es2 \<leftarrow> get_list h2 entities;
         (last_entity, h3) \<leftarrow>
           consecutive_loop_st entities merged_entities current_entity [1..<length es2] h2;
         h4 \<leftarrow> list_append merged_entities last_entity h3;
         Some (merged_entities, h4)
       }
     }"

subsection \<open>merge\_entities\<close>

text \<open>
  Lines 17-25. The \<open>for\<close> loops over a list read it once: nothing is written to the list
  while it is iterated.
\<close>

fun flatten_loop_st :: "addr \<Rightarrow> addr list \<Rightarrow> store \<Rightarrow> store option" where
  "flatten_loop_st flattened_predictions [] h = Some h"
| "flatten_loop_st flattened_predictions (entity # rest) h =
     do {
       p \<leftarrow> get_detection h entity;
       let (d, h1) = alloc (EntityDict (flatten p)) h;
       h2 \<leftarrow> list_append flattened_predictions d h1;
       flatten_loop_st flattened_predictions rest h2
     }"

text \<open>Line 27: the list is sorted in place, by the keys of the dictionaries it refers to.\<close>

definition sort_st :: "addr \<Rightarrow> store \<Rightarrow> store option" where
  "sort_st flattened_predictions h =
     do {
       fs \<leftarrow> get_list h flattened_predictions;
       if list_all (\<lambda>a. get_entity h a \<noteq> None) fs
       then Some (h[flattened_predictions :=
                     ListObj (sort_key (\<lambda>a. sort_key_of (the (get_entity h a))) fs)])
       else None
     }"

text \<open>Lines 39-44 and 63-68, with the new set \<open>{entity['explanation']}\<close>.\<close>

definition open_cluster_st :: "entity \<Rightarrow> store \<Rightarrow> addr cluster \<times> store" where
  "open_cluster_st x h =
     (let (s, h1) = alloc (SetObj [e_explanation x]) h
      in (\<lparr> current_word = e_word x, current_start = e_start x, current_end = e_end x,
            current_type = e_type x, current_score = e_score x,
            current_explanation = s \<rparr>, h1))"

text \<open>Lines 54-62 and 71-79.\<close>

definition close_cluster_st :: "addr \<Rightarrow> addr cluster \<Rightarrow> store \<Rightarrow> store option" where
  "close_cluster_st merged_entities c h =
     do {
       explanations \<leftarrow> get_set h (current_explanation c);
       let explanation_text = join '' and '' (sort explanations);
       let (d, h1) =
             alloc (EntityDict
                      \<lparr> e_word = current_word c, e_start = current_start c,
                        e_end = current_end c, e_type = current_type c,
                        e_score = current_score c, e_explanation = explanation_text \<rparr>) h;
       list_append merged_entities d h1
     }"

text \<open>Lines 46-52.\<close>

definition absorb_st :: "addr cluster \<Rightarrow> entity \<Rightarrow> store \<Rightarrow> (addr cluster \<times> store) option" where
  "absorb_st c x h =
     (let c' = (if e_score x > current_score c
                then c \<lparr> current_word := current_word c @ '' '' @ e_word x,
                         current_end := e_end x,
                         current_type := e_type x,
                         current_score := e_score x \<rparr>
                else c)
      in do {
        h1 \<leftarrow> set_add_st (current_explanation c') (e_explanation x) h;
        Some (c', h1)
      })"

text \<open>Lines 37-68.\<close>

fun sweep_st ::
  "addr \<Rightarrow> addr cluster option \<Rightarrow> addr list \<Rightarrow> store \<Rightarrow> (addr cluster option \<times> store) option" where
  "sweep_st merged_entities cur [] h = Some (cur, h)"
| "sweep_st merged_entities None (entity # rest) h =
     do {
       x \<leftarrow> get_entity h entity;
       let (c, h1) = open_cluster_st x h;
       sweep_st merged_entities (Some c) rest h1
     }"
| "sweep_st merged_entities (Some c) (entity # rest) h =
     do {
       x \<leftarrow> get_entity h entity;
       if e_start x < current_end c
       then do {
         (c', h1) \<leftarrow> absorb_st c x h;
         sweep_st merged_entities (Some c') rest h1
       }
       else do {
         h1 \<leftarrow> close_cluster_st merged_entities c h;
         let (c', h2) = open_cluster_st x h1;
         sweep_st merged_entities (Some c') rest h2
       }
     }"

text \<open>Lines 16-81. The result is the reference to the list returned, and the store.\<close>

definition merge_entities_st :: "addr \<Rightarrow> store \<Rightarrow> (addr \<times> store) option" where
  "merge_entities_st predictions h =
     do {
       let (flattened_predictions, h1) = alloc (ListObj []) h;
       ps \<leftarrow> get_list h1 predictions;
       h2 \<leftarrow> flatten_loop_st flattened_predictions ps h1;
       h3 \<leftarrow> sort_st flattened_predictions h2;
       let (merged_entities, h4) = alloc (ListObj []) h3;
       let (empty_set, h5) = alloc (SetObj []) h4;
       fs \<leftarrow> get_list h5 flattened_predictions;
       (cur, h6) \<leftarrow> sweep_st merged_entities None fs h5;
       case cur of
         None \<Rightarrow> Some (merged_entities, h6)
       | Some c \<Rightarrow> do {
           h7 \<leftarrow> close_cluster_st merged_entities c h6;
           Some (merged_entities, h7)
         }
     }"

section \<open>Auxiliary definitions for the proofs\<close>

text \<open>
  What \<open>merge_consecutive_entities\<close> returns once \<open>current_entity\<close> is set and \<open>xs\<close>
  is still to be read, with nothing appended yet.
\<close>

definition fused_from :: "entity \<Rightarrow> entity list \<Rightarrow> entity list" where
  "fused_from current_entity xs =
     (case consecutive_loop [] current_entity xs of
        (merged_entities, last_entity) \<Rightarrow> merged_entities @ [last_entity])"

text \<open>
  What \<open>merge_entities\<close> returns once the sweep is in state \<open>cur\<close> and \<open>xs\<close> is still
  to be read, with nothing appended yet: the loop of lines 37-68 followed by the
  last append of lines 70-79.
\<close>

definition emitted :: "string list cluster option \<Rightarrow> entity list \<Rightarrow> entity list" where
  "emitted cur xs =
     (case sweep [] cur xs of
        (merged_entities, None) \<Rightarrow> merged_entities
      | (merged_entities, Some c) \<Rightarrow> merged_entities @ [close_cluster c])"

text \<open>
  \<open>merge_entities\<close> reads the keys \<open>entity_type\<close> and \<open>analysis_explanation\<close>, which the
  dictionaries it returns do not have (they have \<open>type\<close> and \<open>explanation\<close>). To feed
  its output to it again, a returned dictionary is put back into the shape of line 18-25's
  right-hand sides; \<open>flatten\<close> undoes this.
\<close>

definition as_prediction :: "entity \<Rightarrow> prediction" where
  "as_prediction x =
     \<lparr> p_word = e_word x, p_start = e_start x, p_end = e_end x,
       p_entity_type = e_type x, p_score = e_score x,
       p_analysis_explanation = \<lparr> textual_explanation = e_explanation x \<rparr> \<rparr>"

text \<open>Example inputs, on which the theorems are instantiated.\<close>

definition scenario_predictions :: "prediction list" where
  "scenario_predictions =
     [\<lparr> p_word = ''Smith'', p_start = 5, p_end = 10, p_entity_type = ''PERSON'',
        p_score = 1 / 2, p_analysis_explanation = \<lparr> textual_explanation = ''name'' \<rparr> \<rparr>,
      \<lparr> p_word = ''John'', p_start = 0, p_end = 4, p_entity_type = ''PERSON'',
        p_score = 3 / 4, p_analysis_explanation = \<lparr> textual_explanation = ''name'' \<rparr> \<rparr>,
      \<lparr> p_word = ''ohn S'', p_start = 1, p_end = 6, p_entity_type = ''ORG'',
        p_score = 1 / 4, p_analysis_explanation = \<lparr> textual_explanation = ''list'' \<rparr> \<rparr>]"

text \<open>
  The span of an input record lies within the span of an output record; the start of an
  input record lies within the span of an output record.
\<close>

definition span_within :: "prediction \<Rightarrow> entity \<Rightarrow> bool" where
  "span_within p r = (e_start r \<le> p_start p \<and> p_end p \<le> e_end r)"

definition start_within :: "prediction \<Rightarrow> entity \<Rightarrow> bool" where
  "start_within p r = (e_start r \<le> p_start p \<and> p_start p < e_end r)"

text \<open>
  Three detections of which the first has an empty span, and five entries for
  \<open>merge_consecutive_entities\<close>: three adjacent ones of one category, an adjacent one of
  another category, and one after a gap.
\<close>

definition degenerate_predictions :: "prediction list" where
  "degenerate_predictions =
     [\<lparr> p_word = '''', p_start = 5, p_end = 5, p_entity_type = ''A'',
        p_score = 1 / 2, p_analysis_explanation = \<lparr> textual_explanation = ''a'' \<rparr> \<rparr>,
      \<lparr> p_word = ''hello'', p_start = 5, p_end = 10, p_entity_type = ''B'',
        p_score = 1 / 4, p_analysis_explanation = \<lparr> textual_explanation = ''b'' \<rparr> \<rparr>,
      \<lparr> p_word = ''el'', p_start = 6, p_end = 8, p_entity_type = ''C'',
        p_score = 3 / 4, p_analysis_explanation = \<lparr> textual_explanation = ''c'' \<rparr> \<rparr>]"

definition adjacent_entities :: "entity list" where
  "adjacent_entities =
     [\<lparr> e_word = ''ab'', e_start = 0, e_end = 4, e_type = ''T'', e_score = 1 / 2,
        e_explanation = ''b and a'' \<rparr>,
      \<lparr> e_word = ''cd'', e_start = 4, e_end = 9, e_type = ''T'', e_score = 1,
        e_explanation = ''c and a'' \<rparr>,
      \<lparr> e_word = ''ef'', e_start = 9, e_end = 10, e_type = ''T'', e_score = 1,
        e_explanation = ''z'' \<rparr>,
      \<lparr> e_word = ''gh'', e_start = 10, e_end = 11, e_type = ''U'', e_score = 1,
        e_explanation = ''z'' \<rparr>,
      \<lparr> e_word = ''ij'', e_start = 12, e_end = 13, e_type = ''U'', e_score = 1,
        e_explanation = ''z'' \<rparr>]"

text \<open>
  For the batch path: the scores and the explanations of the detections of category \<open>t\<close>
  among the flattened detections \<open>rs\<close> of a group, in the order the loops read them; the
  mean the specification asks for; and the joined explanation, with the set of the
  category's explanations built in that order.
\<close>

definition scores_of :: "string \<Rightarrow> RecognizerResult list \<Rightarrow> real list" where
  "scores_of t rs = map r_score (filter (\<lambda>r. r_entity_type r = t) rs)"

definition explanations_of :: "string \<Rightarrow> RecognizerResult list \<Rightarrow> string list" where
  "explanations_of t rs =
     map (\<lambda>r. textual_explanation (r_analysis_explanation r))
       (filter (\<lambda>r. r_entity_type r = t) rs)"

definition mean_scores :: "RecognizerResult list \<Rightarrow> string \<Rightarrow> real option" where
  "mean_scores rs t =
     (if scores_of t rs = [] then None
      else Some (sum_list (scores_of t rs) / real (length (scores_of t rs))))"

definition joined_explanations ::
  "(string list \<Rightarrow> string list) \<Rightarrow> RecognizerResult list \<Rightarrow> string \<Rightarrow> string option" where
  "joined_explanations set_iter rs t =
     (if explanations_of t rs = [] then None
      else Some (join '' and '' (set_iter (py_set (explanations_of t rs)))))"

text \<open>The accumulators after the detections \<open>rs\<close>, and the record appended for an item.\<close>

definition accumulated :: "RecognizerResult list \<Rightarrow> accumulators" where
  "accumulated rs = fold accumulate rs ([], [])"

definition summary_of ::
  "(string list \<Rightarrow> string list) \<Rightarrow> DictAnalyzerResult \<Rightarrow> summary" where
  "summary_of set_iter item =
     (let acc = accumulated (concat (d_recognizer_results item))
      in \<lparr> s_column = d_key item, s_n = length (d_value item),
           s_avg_scores =
             map (\<lambda>(pii_type, scores). (pii_type, total_score scores / real (count scores)))
               (fst acc),
           s_explanation = combined_explanations set_iter (snd acc) \<rparr>)"

text \<open>Example batches.\<close>

definition example_batch :: "DictAnalyzerResult list" where
  "example_batch =
     [\<lparr> d_key = ''col'', d_value = [''u'', ''v''],
        d_recognizer_results =
          [[\<lparr> r_start = 0, r_end = 1, r_entity_type = ''A'', r_score = 8 / 10,
              r_analysis_explanation = \<lparr> textual_explanation = ''x'' \<rparr> \<rparr>,
            \<lparr> r_start = 2, r_end = 3, r_entity_type = ''B'', r_score = 5 / 10,
              r_analysis_explanation = \<lparr> textual_explanation = ''y'' \<rparr> \<rparr>],
           [\<lparr> r_start = 0, r_end = 1, r_entity_type = ''A'', r_score = 6 / 10,
              r_analysis_explanation = \<lparr> textual_explanation = ''x'' \<rparr> \<rparr>]] \<rparr>]"

definition repeated_batch :: "DictAnalyzerResult list" where
  "repeated_batch =
     [\<lparr> d_key = ''col'', d_value = [''u'', ''v'', ''w''],
        d_recognizer_results =
          [[\<lparr> r_start = 0, r_end = 1, r_entity_type = ''A'', r_score = 1 / 2,
              r_analysis_explanation = \<lparr> textual_explanation = ''x'' \<rparr> \<rparr>],
           [\<lparr> r_start = 0, r_end = 1, r_entity_type = ''A'', r_score = 1 / 2,
              r_analysis_explanation = \<lparr> textual_explanation = ''x'' \<rparr> \<rparr>],
           [\<lparr> r_start = 0, r_end = 1, r_entity_type = ''A'', r_score = 1 / 2,
              r_analysis_explanation = \<lparr> textual_explanation = ''w'' \<rparr> \<rparr>]] \<rparr>]"

text \<open>
  Relations between stores. \<open>extends n h h'\<close>: the first \<open>n\<close> objects of \<open>h\<close> are the first
  \<open>n\<close> objects of \<open>h'\<close>. \<open>same_except W h h'\<close>: every object of \<open>h\<close> whose reference is not in
  \<open>W\<close> is the same in \<open>h'\<close>.
\<close>

definition extends :: "nat \<Rightarrow> store \<Rightarrow> store \<Rightarrow> bool" where
  "extends n h h' = (length h \<le> length h' \<and> take n h' = take n h)"

definition same_except :: "addr set \<Rightarrow> store \<Rightarrow> store \<Rightarrow> bool" where
  "same_except W h h' = (length h \<le> length h' \<and> (\<forall>a<length h. a \<notin> W \<longrightarrow> h' ! a = h ! a))"

text \<open>
  What a list of references refers to: \<open>entities_at h as xs\<close> when the references \<open>as\<close> hold
  the dictionaries \<open>xs\<close> of the shape \<open>merge_entities\<close> returns, \<open>detections_at h as ps\<close>
  when they hold the dictionaries \<open>ps\<close> of the shape it reads.
\<close>

definition entities_at :: "store \<Rightarrow> addr list \<Rightarrow> entity list \<Rightarrow> bool" where
  "entities_at h as xs = (map (get_entity h) as = map Some xs)"

definition detections_at :: "store \<Rightarrow> addr list \<Rightarrow> prediction list \<Rightarrow> bool" where
  "detections_at h as ps = (map (get_detection h) as = map Some ps)"

text \<open>
  The sweep's variables with a reference to the set of explanations, against the
  variables with the set itself; \<open>b\<close> bounds the reference from below.
\<close>

definition cluster_at :: "store \<Rightarrow> addr cluster \<Rightarrow> string list cluster \<Rightarrow> bool" where
  "cluster_at h c C =
     (get_set h (current_explanation c) = Some (current_explanation C)
      \<and> current_word c = current_word C \<and> current_start c = current_start C
      \<and> current_end c = current_end C \<and> current_type c = current_type C
      \<and> current_score c = current_score C)"

definition clusters_at ::
  "nat \<Rightarrow> store \<Rightarrow> addr cluster option \<Rightarrow> string list cluster option \<Rightarrow> bool" where
  "clusters_at b h cur C =
     (case cur of
        None \<Rightarrow> C = None
      | Some c \<Rightarrow> (\<exists>C'. C = Some C' \<and> cluster_at h c C' \<and> b \<le> current_explanation c))"

text \<open>
  Example stores. In \<open>example_store\<close>, reference 3 is a list of three dictionaries of the
  shape \<open>merge_consecutive_entities\<close> reads and reference 7 a list of the three detections of
  \<open>scenario_predictions\<close>. \<open>single_store\<close> holds one detection and the list of it at
  reference 1; \<open>single_store_after\<close> is the store after \<open>merge_entities\<close> has run on that
  list, with the list returned at reference 4.
\<close>

definition example_store :: store where
  "example_store =
     [EntityDict \<lparr> e_word = ''ab'', e_start = 0, e_end = 4, e_type = ''T'', e_score = 1 / 2,
        e_explanation = ''b and a'' \<rparr>,
      EntityDict \<lparr> e_word = ''cd'', e_start = 4, e_end = 9, e_type = ''T'', e_score = 1,
        e_explanation = ''c and a'' \<rparr>,
      EntityDict \<lparr> e_word = ''gh'', e_start = 10, e_end = 11, e_type = ''U'', e_score = 1,
        e_explanation = ''z'' \<rparr>,
      ListObj [0, 1, 2],
      DetectionDict \<lparr> p_word = ''Smith'', p_start = 5, p_end = 10, p_entity_type = ''PERSON'',
        p_score = 1 / 2, p_analysis_explanation = \<lparr> textual_explanation = ''name'' \<rparr> \<rparr>,
      DetectionDict \<lparr> p_word = ''John'', p_start = 0, p_end = 4, p_entity_type = ''PERSON'',
        p_score = 3 / 4, p_analysis_explanation = \<lparr> textual_explanation = ''name'' \<rparr> \<rparr>,
      DetectionDict \<lparr> p_word = ''ohn S'', p_start = 1, p_end = 6, p_entity_type = ''ORG'',
        p_score = 1 / 4, p_analysis_explanation = \<lparr> textual_explanation = ''list'' \<rparr> \<rparr>,
      ListObj [4, 5, 6]]"

definition single_store :: store where
  "single_store =
     [DetectionDict \<lparr> p_word = ''John'', p_start = 0, p_end = 4, p_entity_type = ''PERSON'',
        p_score = 3 / 4, p_analysis_explanation = \<lparr> textual_explanation = ''name'' \<rparr> \<rparr>,
      ListObj [0]]"

definition single_store_after :: store where
  "single_store_after =
     single_store @
       [ListObj [3],
        EntityDict \<lparr> e_word = ''John'', e_start = 0, e_end = 4, e_type = ''PERSON'',
          e_score = 3 / 4, e_explanation = ''name'' \<rparr>,
        ListObj [7], SetObj [], SetObj [''name''],
        EntityDict \<lparr> e_word = ''John'', e_start = 0, e_end = 4, e_type = ''PERSON'',
          e_score = 3 / 4, e_explanation = ''name'' \<rparr>]"

section \<open>Sets of strings\<close>

lemma set_set_add: "set (set_add x s) = insert x (set s)"
  by (auto simp: set_add_def)

lemma distinct_set_add: "distinct s \<Longrightarrow> distinct (set_add x s)"
  by (auto simp: set_add_def)

lemma set_fold_set_add: "set (fold set_add xs s) = set xs \<union> set s"
  by (induction xs arbitrary: s) (auto simp: set_set_add)

lemma distinct_fold_set_add: "distinct s \<Longrightarrow> distinct (fold set_add xs s)"
  by (induction xs arbitrary: s) (auto simp: distinct_set_add)

lemma set_py_set: "set (py_set xs) = set xs"
  by (simp add: py_set_def set_fold_set_add)

lemma distinct_py_set: "distinct (py_set xs)"
  by (simp add: py_set_def distinct_fold_set_add)

lemma set_set_union: "set (set_union a b) = set a \<union> set b"
  by (auto simp add: set_union_def set_fold_set_add)

lemma distinct_set_union: "distinct a \<Longrightarrow> distinct (set_union a b)"
  by (simp add: set_union_def distinct_fold_set_add)

lemma sort_distinct_eq: "distinct xs \<Longrightarrow> sort xs = sorted_list_of_set (set xs)"
  by (metis sorted_list_of_set_sort_remdups distinct_remdups_id)

lemma sort_set_union_py_set:
  "sort (set_union (py_set xs) (py_set ys)) = sorted_list_of_set (set xs \<union> set ys)"
  by (simp add: sort_distinct_eq distinct_set_union distinct_py_set set_set_union set_py_set)

section \<open>The loop of merge\_consecutive\_entities\<close>

lemma consecutive_loop_acc:
  "consecutive_loop (acc @ merged) cur xs =
     (acc @ fst (consecutive_loop merged cur xs), snd (consecutive_loop merged cur xs))"
  by (induction xs arbitrary: merged cur) simp_all

lemma consecutive_loop_single:
  "consecutive_loop [a] cur xs =
     (a # fst (consecutive_loop [] cur xs), snd (consecutive_loop [] cur xs))"
  using consecutive_loop_acc [of "[a]" "[]" cur xs] by simp

lemma fused_from_Nil: "fused_from cur [] = [cur]"
  by (simp add: fused_from_def)

lemma fused_from_Cons:
  "fused_from cur (x # xs) =
     (if e_type x = e_type cur \<and> e_start x = e_end cur
      then fused_from (fuse cur x) xs
      else cur # fused_from x xs)"
  by (simp add: fused_from_def consecutive_loop_single split: prod.splits)

lemma merge_consecutive_entities_Cons:
  "merge_consecutive_entities (x # xs) = fused_from x xs"
  by (simp add: merge_consecutive_entities_def fused_from_def)

section \<open>The sweep of merge\_entities\<close>

lemma sweep_acc:
  "sweep (acc @ merged) cur xs =
     (acc @ fst (sweep merged cur xs), snd (sweep merged cur xs))"
  by (induction merged cur xs rule: sweep.induct) simp_all

lemma sweep_single:
  "sweep [a] cur xs = (a # fst (sweep [] cur xs), snd (sweep [] cur xs))"
  using sweep_acc [of "[a]" "[]" cur xs] by simp

lemma emitted_None_Nil: "emitted None [] = []"
  by (simp add: emitted_def)

lemma emitted_None_Cons: "emitted None (x # xs) = emitted (Some (open_cluster x)) xs"
  by (simp add: emitted_def)

lemma emitted_Some_Nil: "emitted (Some c) [] = [close_cluster c]"
  by (simp add: emitted_def)

lemma emitted_Some_Cons:
  "emitted (Some c) (x # xs) =
     (if e_start x < current_end c
      then emitted (Some (absorb c x)) xs
      else close_cluster c # emitted (Some (open_cluster x)) xs)"
  by (simp add: emitted_def sweep_single split: prod.splits option.splits)

lemma merge_entities_emitted:
  "merge_entities predictions = emitted None (sort_key sort_key_of (map flatten predictions))"
  by (simp add: merge_entities_def emitted_def)

lemma absorb_start: "current_start (absorb c x) = current_start c"
  by (simp add: absorb_def Let_def)

lemma absorb_end:
  "current_end (absorb c x) = (if e_score x > current_score c then e_end x else current_end c)"
  by (simp add: absorb_def Let_def)

lemma open_cluster_span:
  "current_start (open_cluster x) = e_start x" "current_end (open_cluster x) = e_end x"
  by (simp_all add: open_cluster_def)

lemma close_cluster_span:
  "e_start (close_cluster c) = current_start c" "e_end (close_cluster c) = current_end c"
  by (simp_all add: close_cluster_def)

lemma emitted_start_lower:
  "sorted (map e_start xs) \<Longrightarrow> \<forall>x\<in>set xs. current_start c \<le> e_start x \<Longrightarrow>
   r \<in> set (emitted (Some c) xs) \<Longrightarrow> current_start c \<le> e_start r"
proof (induction xs arbitrary: c)
  case Nil
  then show ?case by (simp add: emitted_Some_Nil close_cluster_span)
next
  case (Cons x xs)
  show ?case
  proof (cases "e_start x < current_end c")
    case True
    with Cons.prems have "r \<in> set (emitted (Some (absorb c x)) xs)"
      by (simp add: emitted_Some_Cons)
    with Cons.IH [of "absorb c x"] Cons.prems show ?thesis
      by (simp add: absorb_start)
  next
    case False
    with Cons.prems have "r = close_cluster c \<or> r \<in> set (emitted (Some (open_cluster x)) xs)"
      by (simp add: emitted_Some_Cons)
    then show ?thesis
    proof
      assume "r = close_cluster c"
      then show ?thesis by (simp add: close_cluster_span)
    next
      assume "r \<in> set (emitted (Some (open_cluster x)) xs)"
      with Cons.IH [of "open_cluster x"] Cons.prems have "e_start x \<le> e_start r"
        by (simp add: open_cluster_span)
      with Cons.prems show ?thesis by simp
    qed
  qed
qed

lemma emitted_disjoint:
  "sorted (map e_start xs) \<Longrightarrow>
   \<forall>x\<in>set xs. e_start x < e_end x \<and> current_start c \<le> e_start x \<Longrightarrow>
   current_start c < current_end c \<Longrightarrow>
   sorted_wrt (\<lambda>a b. e_end a \<le> e_start b) (emitted (Some c) xs)
   \<and> (\<forall>r\<in>set (emitted (Some c) xs). e_start r < e_end r)"
proof (induction xs arbitrary: c)
  case Nil
  then show ?case by (simp add: emitted_Some_Nil close_cluster_span)
next
  case (Cons x xs)
  show ?case
  proof (cases "e_start x < current_end c")
    case True
    have "current_start (absorb c x) < current_end (absorb c x)"
      using Cons.prems by (auto simp: absorb_start absorb_end)
    with Cons.IH [of "absorb c x"] Cons.prems True show ?thesis
      by (simp add: emitted_Some_Cons absorb_start)
  next
    case False
    have ih: "sorted_wrt (\<lambda>a b. e_end a \<le> e_start b) (emitted (Some (open_cluster x)) xs)
      \<and> (\<forall>r\<in>set (emitted (Some (open_cluster x)) xs). e_start r < e_end r)"
      using Cons.IH [of "open_cluster x"] Cons.prems by (simp add: open_cluster_span)
    have "\<forall>r\<in>set (emitted (Some (open_cluster x)) xs). e_start x \<le> e_start r"
      using emitted_start_lower [of xs "open_cluster x"] Cons.prems
      by (simp add: open_cluster_span)
    with False have "\<forall>r\<in>set (emitted (Some (open_cluster x)) xs). current_end c \<le> e_start r"
      by fastforce
    with ih False Cons.prems show ?thesis
      by (simp add: emitted_Some_Cons close_cluster_span)
  qed
qed

lemma sorted_keys_sorted_starts:
  "sorted (map sort_key_of xs) \<Longrightarrow> sorted (map e_start xs)"
  by (induction xs) (auto simp: sort_key_of_def less_eq_prod_def)

lemma merge_entities_disjoint:
  assumes "\<forall>p\<in>set predictions. p_start p < p_end p"
  shows "sorted_wrt (\<lambda>a b. e_end a \<le> e_start b) (merge_entities predictions)
         \<and> (\<forall>r\<in>set (merge_entities predictions). e_start r < e_end r)"
proof -
  let ?ys = "sort_key sort_key_of (map flatten predictions)"
  have srt: "sorted (map e_start ?ys)"
    by (rule sorted_keys_sorted_starts) simp
  have wf: "\<forall>y\<in>set ?ys. e_start y < e_end y"
    using assms by (auto simp: flatten_def)
  show ?thesis
  proof (cases ?ys)
    case Nil
    then show ?thesis by (simp add: merge_entities_emitted emitted_None_Nil)
  next
    case (Cons y ys)
    with srt wf have "sorted (map e_start ys)"
      and "\<forall>x\<in>set ys. e_start x < e_end x \<and> current_start (open_cluster y) \<le> e_start x"
      and "current_start (open_cluster y) < current_end (open_cluster y)"
      by (auto simp: open_cluster_span)
    from emitted_disjoint [OF this] Cons show ?thesis
      by (simp add: merge_entities_emitted emitted_None_Cons)
  qed
qed

section \<open>Order of the starts\<close>

lemma fuse_start: "e_start (fuse cur x) = e_start cur"
  by (simp add: fuse_def Let_def)

lemma fused_from_starts:
  "r \<in> set (fused_from cur xs) \<Longrightarrow> e_start r = e_start cur \<or> e_start r \<in> e_start ` set xs"
proof (induction xs arbitrary: cur)
  case Nil
  then show ?case by (simp add: fused_from_Nil)
next
  case (Cons x xs)
  show ?case
  proof (cases "e_type x = e_type cur \<and> e_start x = e_end cur")
    case True
    with Cons.prems have "r \<in> set (fused_from (fuse cur x) xs)"
      by (simp add: fused_from_Cons)
    from Cons.IH [OF this] show ?thesis by (auto simp: fuse_start)
  next
    case False
    with Cons.prems have "r = cur \<or> r \<in> set (fused_from x xs)"
      by (auto simp add: fused_from_Cons)
    with Cons.IH [of x] show ?thesis by auto
  qed
qed

lemma fused_from_sorted:
  "sorted_wrt (<) (map e_start (cur # xs)) \<Longrightarrow> sorted_wrt (<) (map e_start (fused_from cur xs))"
proof (induction xs arbitrary: cur)
  case Nil
  then show ?case by (simp add: fused_from_Nil)
next
  case (Cons x xs)
  show ?case
  proof (cases "e_type x = e_type cur \<and> e_start x = e_end cur")
    case True
    have "sorted_wrt (<) (map e_start (fuse cur x # xs))"
      using Cons.prems by (simp add: fuse_start)
    from Cons.IH [OF this] True show ?thesis by (simp add: fused_from_Cons)
  next
    case False
    have "sorted_wrt (<) (map e_start (fused_from x xs))"
      using Cons.IH [of x] Cons.prems by simp
    moreover have "\<forall>r\<in>set (fused_from x xs). e_start cur < e_start r"
    proof
      fix r
      assume "r \<in> set (fused_from x xs)"
      then have "e_start r = e_start x \<or> e_start r \<in> e_start ` set xs"
        by (rule fused_from_starts)
      with Cons.prems show "e_start cur < e_start r" by auto
    qed
    ultimately show ?thesis using False by (auto simp add: fused_from_Cons)
  qed
qed

lemma merge_consecutive_entities_sorted:
  "sorted_wrt (<) (map e_start entities) \<Longrightarrow>
   sorted_wrt (<) (map e_start (merge_consecutive_entities entities))"
proof (cases entities)
  case Nil
  then show ?thesis by (simp add: merge_consecutive_entities_def)
next
  case (Cons x xs)
  assume "sorted_wrt (<) (map e_start entities)"
  with Cons fused_from_sorted [of x xs] show ?thesis
    by (simp add: merge_consecutive_entities_Cons)
qed

lemma disjoint_strict_starts:
  "sorted_wrt (\<lambda>a b. e_end a \<le> e_start b) xs \<Longrightarrow> \<forall>r\<in>set xs. e_start r < e_end r \<Longrightarrow>
   sorted_wrt (<) (map e_start xs)"
  by (induction xs) (auto simp: sorted_wrt_map; fastforce)+

section \<open>Every start is covered\<close>

lemma emitted_covers_position:
  "sorted (map e_start xs) \<Longrightarrow> \<forall>x\<in>set xs. e_start x < e_end x \<and> s \<le> e_start x \<Longrightarrow>
   current_start c \<le> s \<Longrightarrow> s < current_end c \<Longrightarrow>
   \<exists>r\<in>set (emitted (Some c) xs). e_start r \<le> s \<and> s < e_end r"
proof (induction xs arbitrary: c)
  case Nil
  then show ?case by (simp add: emitted_Some_Nil close_cluster_span)
next
  case (Cons x xs)
  show ?case
  proof (cases "e_start x < current_end c")
    case True
    have "s < current_end (absorb c x)"
      using Cons.prems by (auto simp: absorb_end)
    with Cons.IH [of "absorb c x"] Cons.prems True show ?thesis
      by (simp add: emitted_Some_Cons absorb_start)
  next
    case False
    with Cons.prems show ?thesis
      by (simp add: emitted_Some_Cons close_cluster_span)
  qed
qed

lemma emitted_covers_starts:
  "sorted (map e_start xs) \<Longrightarrow>
   \<forall>x\<in>set xs. e_start x < e_end x \<and> current_start c \<le> e_start x \<Longrightarrow>
   current_start c < current_end c \<Longrightarrow> y \<in> set xs \<Longrightarrow>
   \<exists>r\<in>set (emitted (Some c) xs). e_start r \<le> e_start y \<and> e_start y < e_end r"
proof (induction xs arbitrary: c)
  case Nil
  then show ?case by simp
next
  case (Cons x xs)
  have srt: "sorted (map e_start xs)" and low: "\<forall>z\<in>set xs. e_start x \<le> e_start z"
    and wf: "\<forall>z\<in>set xs. e_start z < e_end z" and wfx: "e_start x < e_end x"
    and cx: "current_start c \<le> e_start x"
    using Cons.prems by auto
  show ?case
  proof (cases "e_start x < current_end c")
    case True
    let ?c = "absorb c x"
    have c1: "current_start ?c \<le> e_start x" using cx by (simp add: absorb_start)
    have c2: "e_start x < current_end ?c" using True wfx by (simp add: absorb_end)
    have "\<exists>r\<in>set (emitted (Some ?c) xs). e_start r \<le> e_start y \<and> e_start y < e_end r"
    proof (cases "y = x")
      case True
      from emitted_covers_position [of xs "e_start x" ?c] srt wf low c1 c2
      show ?thesis unfolding True by blast
    next
      case False
      with Cons.prems have "y \<in> set xs" by simp
      moreover have "\<forall>z\<in>set xs. e_start z < e_end z \<and> current_start ?c \<le> e_start z"
        using wf low c1 by fastforce
      moreover have "current_start ?c < current_end ?c" using c1 c2 by simp
      ultimately show ?thesis using Cons.IH [of ?c] srt by blast
    qed
    with True show ?thesis by (simp add: emitted_Some_Cons)
  next
    case False
    let ?c = "open_cluster x"
    have "\<exists>r\<in>set (emitted (Some ?c) xs). e_start r \<le> e_start y \<and> e_start y < e_end r"
    proof (cases "y = x")
      case True
      from emitted_covers_position [of xs "e_start x" ?c] srt wf low wfx
      show ?thesis unfolding True by (simp add: open_cluster_span)
    next
      case False
      with Cons.prems have "y \<in> set xs" by simp
      moreover have "\<forall>z\<in>set xs. e_start z < e_end z \<and> current_start ?c \<le> e_start z"
        using wf low by (simp add: open_cluster_span)
      moreover have "current_start ?c < current_end ?c" using wfx by (simp add: open_cluster_span)
      ultimately show ?thesis using Cons.IH [of ?c] srt by blast
    qed
    with False show ?thesis by (auto simp add: emitted_Some_Cons)
  qed
qed

lemma merge_entities_covers_starts:
  assumes wf: "\<forall>p\<in>set predictions. p_start p < p_end p" and p: "p \<in> set predictions"
  shows "\<exists>r\<in>set (merge_entities predictions). start_within p r"
proof -
  let ?ys = "sort_key sort_key_of (map flatten predictions)"
  have srt: "sorted (map e_start ?ys)"
    by (rule sorted_keys_sorted_starts) simp
  have wfs: "\<forall>y\<in>set ?ys. e_start y < e_end y"
    using wf by (auto simp: flatten_def)
  have mem: "flatten p \<in> set ?ys" using p by simp
  have st: "e_start (flatten p) = p_start p" by (simp add: flatten_def)
  show ?thesis
  proof (cases ?ys)
    case Nil
    with mem show ?thesis by simp
  next
    case (Cons y ys)
    let ?c = "open_cluster y"
    from Cons srt wfs have s': "sorted (map e_start ys)"
      and low: "\<forall>z\<in>set ys. e_start y \<le> e_start z"
      and wf': "\<forall>z\<in>set ys. e_start z < e_end z" and wfy: "e_start y < e_end y"
      by auto
    have "\<exists>r\<in>set (emitted (Some ?c) ys). e_start r \<le> e_start (flatten p) \<and> e_start (flatten p) < e_end r"
    proof (cases "flatten p = y")
      case True
      from emitted_covers_position [of ys "e_start y" ?c] s' wf' low wfy
      show ?thesis unfolding True by (simp add: open_cluster_span)
    next
      case False
      with mem Cons have "flatten p \<in> set ys" by simp
      moreover have "\<forall>z\<in>set ys. e_start z < e_end z \<and> current_start ?c \<le> e_start z"
        using wf' low by (simp add: open_cluster_span)
      moreover have "current_start ?c < current_end ?c" using wfy by (simp add: open_cluster_span)
      ultimately show ?thesis using emitted_covers_starts [of ys ?c "flatten p"] s' by blast
    qed
    with Cons show ?thesis
      by (simp add: merge_entities_emitted emitted_None_Cons start_within_def st)
  qed
qed

lemma sorted_wrt_related:
  "sorted_wrt P xs \<Longrightarrow> i < j \<Longrightarrow> j < length xs \<Longrightarrow> P (xs ! i) (xs ! j)"
  by (simp add: sorted_wrt_iff_nth_less)

section \<open>Disjoint records pass through the sweep\<close>

lemma flatten_as_prediction: "flatten (as_prediction x) = x"
  by (simp add: flatten_def as_prediction_def)

lemma map_flatten_as_prediction: "map flatten (map as_prediction xs) = xs"
  by (induction xs) (simp_all add: flatten_as_prediction)

lemma close_open_cluster: "close_cluster (open_cluster x) = x"
  by (simp add: close_cluster_def open_cluster_def)

lemma emitted_disjoint_unchanged:
  "sorted_wrt (\<lambda>a b. e_end a \<le> e_start b) (x # xs) \<Longrightarrow>
   emitted (Some (open_cluster x)) xs = x # xs"
proof (induction xs arbitrary: x)
  case Nil
  then show ?case by (simp add: emitted_Some_Nil close_open_cluster)
next
  case (Cons y ys)
  then have "\<not> e_start y < current_end (open_cluster x)"
    by (simp add: open_cluster_span)
  moreover have "emitted (Some (open_cluster y)) ys = y # ys"
    using Cons.IH [of y] Cons.prems by simp
  ultimately show ?case by (simp add: emitted_Some_Cons close_open_cluster)
qed

lemma strict_starts_sorted_keys:
  "sorted_wrt (<) (map e_start xs) \<Longrightarrow> sorted (map sort_key_of xs)"
  by (induction xs) (auto simp: sort_key_of_def less_eq_prod_def)

section \<open>The accumulators of summarize\_pii\_batch\<close>

lemma py_set_snoc: "py_set (xs @ [x]) = set_add x (py_set xs)"
  by (simp add: py_set_def)

lemma py_set_first_seen: "py_set xs = rev (remdups (rev xs))"
  by (induction xs rule: rev_induct) (auto simp: py_set_snoc set_add_def, simp add: py_set_def)

lemma fold_fold_concat:
  "fold (\<lambda>results acc. fold accumulate results acc) rrs acc = fold accumulate (concat rrs) acc"
  by (induction rrs arbitrary: acc) simp_all

lemma accumulate_all_concat: "accumulate_all rrs = accumulated (concat rrs)"
  by (simp add: accumulate_all_def accumulated_def fold_fold_concat)

lemma accumulated_snoc: "accumulated (rs @ [r]) = accumulate r (accumulated rs)"
  by (simp add: accumulated_def)

lemma scores_of_snoc:
  "scores_of t (rs @ [r]) = scores_of t rs @ (if r_entity_type r = t then [r_score r] else [])"
  by (simp add: scores_of_def)

lemma explanations_of_snoc:
  "explanations_of t (rs @ [r]) =
     explanations_of t rs @
       (if r_entity_type r = t then [textual_explanation (r_analysis_explanation r)] else [])"
  by (simp add: explanations_of_def)

lemma map_of_scores:
  "map_of (fst (accumulated rs)) t =
     (if scores_of t rs = [] then None
      else Some \<lparr> total_score = sum_list (scores_of t rs), count = length (scores_of t rs) \<rparr>)"
proof (induction rs arbitrary: t rule: rev_induct)
  case Nil
  then show ?case by (simp add: accumulated_def scores_of_def)
next
  case (snoc r rs)
  obtain sc ex where acc: "accumulated rs = (sc, ex)" by (cases "accumulated rs")
  with snoc have ih: "map_of sc u =
     (if scores_of u rs = [] then None
      else Some \<lparr> total_score = sum_list (scores_of u rs), count = length (scores_of u rs) \<rparr>)" for u
    by simp
  show ?case
    by (simp add: accumulated_snoc acc accumulate_def Let_def update_conv' scores_of_snoc ih
        split: option.splits)
qed

lemma map_of_explanations:
  "map_of (snd (accumulated rs)) t =
     (if explanations_of t rs = [] then None else Some (py_set (explanations_of t rs)))"
proof (induction rs arbitrary: t rule: rev_induct)
  case Nil
  then show ?case by (simp add: accumulated_def explanations_of_def)
next
  case (snoc r rs)
  obtain sc ex where acc: "accumulated rs = (sc, ex)" by (cases "accumulated rs")
  with snoc have ih: "map_of ex u =
     (if explanations_of u rs = [] then None else Some (py_set (explanations_of u rs)))" for u
    by simp
  show ?case
    by (simp add: accumulated_snoc acc accumulate_def Let_def update_conv' explanations_of_snoc
        ih py_set_snoc split: option.splits)
      (simp add: py_set_def set_add_def)
qed

lemma distinct_keys_accumulated:
  "distinct (map fst (fst (accumulated rs))) \<and> distinct (map fst (snd (accumulated rs)))"
proof (induction rs rule: rev_induct)
  case Nil
  then show ?case by (simp add: accumulated_def)
next
  case (snoc r rs)
  obtain sc ex where acc: "accumulated rs = (sc, ex)" by (cases "accumulated rs")
  with snoc show ?case
    by (simp add: accumulated_snoc accumulate_def Let_def distinct_update split: option.splits)
qed

lemma scores_of_empty_iff: "scores_of t rs = [] \<longleftrightarrow> t \<notin> r_entity_type ` set rs"
  by (auto simp: scores_of_def filter_empty_conv)

lemma explanations_of_empty_iff: "explanations_of t rs = [] \<longleftrightarrow> t \<notin> r_entity_type ` set rs"
  by (auto simp: explanations_of_def filter_empty_conv)

lemma keys_accumulated:
  "set (map fst (fst (accumulated rs))) = r_entity_type ` set rs"
proof -
  have "set (map fst (fst (accumulated rs))) = dom (map_of (fst (accumulated rs)))"
    by (simp add: dom_map_of_conv_image_fst)
  also have "\<dots> = {t. scores_of t rs \<noteq> []}"
    by (auto simp: dom_def map_of_scores)
  finally show ?thesis by (auto simp: scores_of_empty_iff)
qed

lemma counts_accumulated:
  "list_all (\<lambda>(pii_type, scores). 1 \<le> count scores) (fst (accumulated rs))"
proof -
  have "1 \<le> count e" if "(t, e) \<in> set (fst (accumulated rs))" for t e
  proof -
    from that distinct_keys_accumulated [of rs]
    have "map_of (fst (accumulated rs)) t = Some e" by simp
    then show ?thesis
      by (auto simp: map_of_scores split: if_splits simp: Suc_le_eq)
  qed
  then show ?thesis by (auto simp: list_all_iff)
qed

lemma averages_total:
  "list_all (\<lambda>(pii_type, scores). 1 \<le> count scores) pii_scores \<Longrightarrow>
   averages pii_scores =
     Inr (map (\<lambda>(pii_type, scores). (pii_type, total_score scores / real (count scores)))
            pii_scores)"
  by (induction pii_scores) auto


lemma summarize_item_total: "summarize_item set_iter item = Inr (summary_of set_iter item)"
proof -
  obtain sc ex where acc: "accumulated (concat (d_recognizer_results item)) = (sc, ex)"
    by (cases "accumulated (concat (d_recognizer_results item))")
  have "list_all (\<lambda>(pii_type, scores). 1 \<le> count scores) sc"
    using counts_accumulated [of "concat (d_recognizer_results item)"] by (simp add: acc)
  then have "averages sc =
     Inr (map (\<lambda>(pii_type, scores). (pii_type, total_score scores / real (count scores))) sc)"
    by (rule averages_total)
  then show ?thesis
    by (simp add: summarize_item_def summary_of_def accumulate_all_concat acc)
qed

lemma batch_loop_total:
  "batch_loop set_iter out items = Inr (out @ map (summary_of set_iter) items)"
  by (induction items arbitrary: out) (simp_all add: summarize_item_total)

lemma summarize_pii_batch_total:
  "summarize_pii_batch set_iter items = Inr (map (summary_of set_iter) items)"
  by (simp add: summarize_pii_batch_def batch_loop_total)

lemma map_of_avg_scores:
  "map_of (s_avg_scores (summary_of set_iter item)) =
     mean_scores (concat (d_recognizer_results item))"
proof
  fix t
  let ?rs = "concat (d_recognizer_results item)"
  have "map_of (s_avg_scores (summary_of set_iter item)) t =
        map_option (\<lambda>scores. total_score scores / real (count scores))
          (map_of (fst (accumulated ?rs)) t)"
    by (simp add: summary_of_def Let_def map_of_map)
  then show "map_of (s_avg_scores (summary_of set_iter item)) t = mean_scores ?rs t"
    by (simp add: map_of_scores mean_scores_def)
qed

lemma map_of_explanation:
  "map_of (s_explanation (summary_of set_iter item)) =
     joined_explanations set_iter (concat (d_recognizer_results item))"
proof
  fix t
  let ?rs = "concat (d_recognizer_results item)"
  have "map_of (s_explanation (summary_of set_iter item)) t =
        map_option (\<lambda>explanations. join '' and '' (set_iter explanations))
          (map_of (snd (accumulated ?rs)) t)"
    by (simp add: summary_of_def Let_def combined_explanations_def map_of_map)
  then show "map_of (s_explanation (summary_of set_iter item)) t = joined_explanations set_iter ?rs t"
    by (simp add: map_of_explanations joined_explanations_def)
qed

lemma keys_avg_scores:
  "map fst (s_avg_scores (summary_of set_iter item)) =
     map fst (fst (accumulated (concat (d_recognizer_results item))))"
  by (simp add: summary_of_def Let_def case_prod_unfold comp_def)

lemma list_all2_map_right: "(\<And>x. P x (f x)) \<Longrightarrow> list_all2 P xs (map f xs)"
  by (induction xs) simp_all

section \<open>The store: what a call writes\<close>

lemma extends_refl: "extends n h h"
  by (simp add: extends_def)

lemma extends_trans: "extends n h h1 \<Longrightarrow> extends n h1 h2 \<Longrightarrow> extends n h h2"
  by (simp add: extends_def)

lemma extends_alloc: "n \<le> length h \<Longrightarrow> alloc v h = (a, h') \<Longrightarrow> extends n h h' \<and> n \<le> a"
  by (auto simp: extends_def alloc_def)

lemma extends_update: "n \<le> a \<Longrightarrow> extends n h (h[a := v])"
  by (simp add: extends_def)

lemma extends_list_append: "list_append l x h = Some h' \<Longrightarrow> n \<le> l \<Longrightarrow> extends n h h'"
  by (auto simp: list_append_def extends_update split: option.splits)

lemma extends_set_add_st: "set_add_st s x h = Some h' \<Longrightarrow> n \<le> s \<Longrightarrow> extends n h h'"
  by (auto simp: set_add_st_def extends_update split: option.splits)

lemma extends_set_item: "set_item d f h = Some h' \<Longrightarrow> n \<le> d \<Longrightarrow> extends n h h'"
  by (auto simp: set_item_def extends_update split: option.splits)

lemma extends_fuse_in_place:
  assumes "fuse_in_place cur e h = Some h'" and n: "n \<le> cur"
  shows "extends n h h'"
proof -
  from assms(1) obtain f1 f2 f3 f4 h1 h2 h3 where
    "set_item cur f1 h = Some h1" "set_item cur f2 h1 = Some h2"
    "set_item cur f3 h2 = Some h3" "set_item cur f4 h3 = Some h'"
    unfolding fuse_in_place_def by (auto split: Option.bind_splits)
  then have "extends n h h1" "extends n h1 h2" "extends n h2 h3" "extends n h3 h'"
    using n by (auto intro: extends_set_item)
  then show ?thesis by (blast intro: extends_trans)
qed

lemma extends_length: "extends n h h' \<Longrightarrow> n \<le> length h \<Longrightarrow> n \<le> length h'"
  by (simp add: extends_def)

lemma consecutive_loop_st_extends:
  "consecutive_loop_st entities merged cur idx h = Some (cur', h') \<Longrightarrow>
   n \<le> merged \<Longrightarrow> n \<le> cur \<Longrightarrow> n \<le> length h \<Longrightarrow> extends n h h'"
proof (induction idx arbitrary: cur h)
  case Nil
  then show ?case by (simp add: extends_refl)
next
  case (Cons i idx)
  from Cons.prems(1) obtain es x c where
    es: "get_list h entities = Some es" and i: "i < length es"
    and x: "get_entity h (es ! i) = Some x" and c: "get_entity h cur = Some c"
    by (auto split: Option.bind_splits if_splits)
  show ?case
  proof (cases "e_type x = e_type c \<and> e_start x = e_end c")
    case True
    with Cons.prems(1) es i x c obtain h1 where
      h1: "fuse_in_place cur (es ! i) h = Some h1"
      and r: "consecutive_loop_st entities merged cur idx h1 = Some (cur', h')"
      by (auto split: Option.bind_splits)
    have e1: "extends n h h1" using h1 Cons.prems(3) by (rule extends_fuse_in_place)
    then have "n \<le> length h1" using Cons.prems(4) by (rule extends_length)
    from Cons.IH [OF r Cons.prems(2) Cons.prems(3) this] e1 show ?thesis
      by (blast intro: extends_trans)
  next
    case False
    with Cons.prems(1) es i x c obtain h1 x' cp h2 where
      h1: "list_append merged cur h = Some h1"
      and cp: "alloc (EntityDict x') h1 = (cp, h2)"
      and r: "consecutive_loop_st entities merged cp idx h2 = Some (cur', h')"
      by (auto split: Option.bind_splits prod.splits)
    have e1: "extends n h h1" using h1 Cons.prems(2) by (rule extends_list_append)
    then have l1: "n \<le> length h1" using Cons.prems(4) by (rule extends_length)
    from extends_alloc [OF l1 cp] have e2: "extends n h1 h2" and ncp: "n \<le> cp" by auto
    from e2 l1 have "n \<le> length h2" by (rule extends_length)
    from Cons.IH [OF r Cons.prems(2) ncp this] e1 e2 show ?thesis
      by (blast intro: extends_trans)
  qed
qed

lemma lookup_update:
  "lookup (h[a := v]) b = (if b < length h then Some (if a = b then v else h ! b) else None)"
  by (simp add: lookup_def)

lemma lookup_snoc:
  "lookup (h @ [v]) b =
     (if b < length h then Some (h ! b) else if b = length h then Some v else None)"
  by (simp add: lookup_def nth_append)

lemma lookup_Some_less: "lookup h a = Some v \<Longrightarrow> a < length h"
  by (simp add: lookup_def split: if_splits)

lemma get_entity_less: "get_entity h a = Some x \<Longrightarrow> a < length h"
  by (auto simp: get_entity_def dest: lookup_Some_less split: option.splits)

lemma get_list_less: "get_list h a = Some x \<Longrightarrow> a < length h"
  by (auto simp: get_list_def dest: lookup_Some_less split: option.splits)

lemma get_set_less: "get_set h a = Some x \<Longrightarrow> a < length h"
  by (auto simp: get_set_def dest: lookup_Some_less split: option.splits)

lemma get_detection_less: "get_detection h a = Some x \<Longrightarrow> a < length h"
  by (auto simp: get_detection_def dest: lookup_Some_less split: option.splits)

lemma get_entity_update_other: "a \<noteq> b \<Longrightarrow> get_entity (h[a := v]) b = get_entity h b"
  by (simp add: get_entity_def lookup_update lookup_def)

lemma get_list_update_other: "a \<noteq> b \<Longrightarrow> get_list (h[a := v]) b = get_list h b"
  by (simp add: get_list_def lookup_update lookup_def)

lemma get_set_update_other: "a \<noteq> b \<Longrightarrow> get_set (h[a := v]) b = get_set h b"
  by (simp add: get_set_def lookup_update lookup_def)

lemma get_detection_update_other: "a \<noteq> b \<Longrightarrow> get_detection (h[a := v]) b = get_detection h b"
  by (simp add: get_detection_def lookup_update lookup_def)

lemma get_entity_update_same:
  "a < length h \<Longrightarrow> get_entity (h[a := EntityDict x]) a = Some x"
  by (simp add: get_entity_def lookup_update)

lemma get_list_update_same:
  "a < length h \<Longrightarrow> get_list (h[a := ListObj xs]) a = Some xs"
  by (simp add: get_list_def lookup_update)

lemma get_set_update_same:
  "a < length h \<Longrightarrow> get_set (h[a := SetObj xs]) a = Some xs"
  by (simp add: get_set_def lookup_update)

lemma get_entity_append_old: "b < length h \<Longrightarrow> get_entity (h @ ys) b = get_entity h b"
  by (simp add: get_entity_def lookup_def nth_append)

lemma get_list_append_old: "b < length h \<Longrightarrow> get_list (h @ ys) b = get_list h b"
  by (simp add: get_list_def lookup_def nth_append)

lemma get_set_append_old: "b < length h \<Longrightarrow> get_set (h @ ys) b = get_set h b"
  by (simp add: get_set_def lookup_def nth_append)

lemma get_detection_append_old: "b < length h \<Longrightarrow> get_detection (h @ ys) b = get_detection h b"
  by (simp add: get_detection_def lookup_def nth_append)

lemma get_entity_snoc_new: "get_entity (h @ EntityDict x # ys) (length h) = Some x"
  by (simp add: get_entity_def lookup_def)

lemma get_list_snoc_new: "get_list (h @ ListObj xs # ys) (length h) = Some xs"
  by (simp add: get_list_def lookup_def)

lemma get_set_snoc_new: "get_set (h @ SetObj xs # ys) (length h) = Some xs"
  by (simp add: get_set_def lookup_def)

lemmas store_simps =
  get_entity_update_other get_list_update_other get_set_update_other get_detection_update_other
  get_entity_update_same get_list_update_same get_set_update_same
  get_entity_append_old get_list_append_old get_set_append_old get_detection_append_old
  get_entity_snoc_new get_list_snoc_new get_set_snoc_new

lemma entities_at_length: "entities_at h as xs \<Longrightarrow> length as = length xs"
  unfolding entities_at_def by (rule map_eq_imp_length_eq)

lemma entities_at_nth:
  "entities_at h as xs \<Longrightarrow> i < length as \<Longrightarrow> get_entity h (as ! i) = Some (xs ! i)"
  unfolding entities_at_def
  by (metis length_map nth_map)

lemma entities_at_less: "entities_at h as xs \<Longrightarrow> a \<in> set as \<Longrightarrow> a < length h"
  unfolding entities_at_def
  by (metis get_entity_less in_set_conv_nth length_map nth_map)

lemma entities_at_cong:
  "entities_at h as xs \<Longrightarrow> (\<And>a. a \<in> set as \<Longrightarrow> get_entity h' a = get_entity h a) \<Longrightarrow>
   entities_at h' as xs"
  unfolding entities_at_def by (metis map_eq_conv)

lemma entities_at_snoc:
  "entities_at h as xs \<Longrightarrow> get_entity h a = Some x \<Longrightarrow> entities_at h (as @ [a]) (xs @ [x])"
  by (simp add: entities_at_def)

lemma entities_at_Nil: "entities_at h [] []"
  by (simp add: entities_at_def)

lemma fuse_in_place_eq:
  assumes "cur \<noteq> e" "get_entity h cur = Some c" "get_entity h e = Some x"
  shows "fuse_in_place cur e h = Some (h[cur := EntityDict (fuse c x)])"
proof -
  have l: "cur < length h" using assms(2) by (rule get_entity_less)
  show ?thesis
    using assms l
    by (simp add: fuse_in_place_def set_item_def store_simps fuse_def Let_def)
qed

lemma consecutive_loop_st_refines:
  assumes "entities < n" "n \<le> length h" "get_list h entities = Some es"
    "\<forall>a\<in>set es. a < n" "entities_at h es xs"
    "n \<le> merged" "n \<le> cur" "merged \<noteq> cur"
    "get_list h merged = Some ms" "get_entity h cur = Some c"
    "\<forall>a\<in>set ms. n \<le> a \<and> a \<noteq> cur \<and> a \<noteq> merged" "entities_at h ms M"
    "\<forall>i\<in>set idx. i < length es"
  shows "\<exists>cur' h' ms' M' c'.
           consecutive_loop_st entities merged cur idx h = Some (cur', h')
           \<and> get_list h' merged = Some ms' \<and> get_entity h' cur' = Some c'
           \<and> n \<le> cur' \<and> cur' \<noteq> merged
           \<and> (\<forall>a\<in>set ms'. n \<le> a \<and> a \<noteq> merged) \<and> entities_at h' ms' M'
           \<and> consecutive_loop M c (map ((!) xs) idx) = (M', c')"
  using assms
proof (induction idx arbitrary: cur h ms M c)
  case Nil
  then show ?case by auto
next
  case (Cons i idx)
  note p = Cons.prems
  have i: "i < length es" using p(13) by simp
  have x: "get_entity h (es ! i) = Some (xs ! i)" using p(5) i by (rule entities_at_nth)
  have ei: "es ! i < n" using p(4) i by simp
  have lc: "cur < length h" using p(10) by (rule get_entity_less)
  have lm: "merged < length h" using p(9) by (rule get_list_less)
  have ms_less: "\<forall>a\<in>set ms. a < length h" using p(12) by (auto dest: entities_at_less)
  show ?case
  proof (cases "e_type (xs ! i) = e_type c \<and> e_start (xs ! i) = e_end c")
    case True
    let ?h1 = "h[cur := EntityDict (fuse c (xs ! i))]"
    have f: "fuse_in_place cur (es ! i) h = Some ?h1"
      using ei p(7) p(10) x by (intro fuse_in_place_eq) auto
    have step: "consecutive_loop_st entities merged cur (i # idx) h =
                consecutive_loop_st entities merged cur idx ?h1"
      using True by (simp add: p(3) i x p(10) f)
    have a1: "n \<le> length ?h1" using p(2) by simp
    have a2: "get_list ?h1 entities = Some es" using p(1,3,7) by (simp add: store_simps)
    have a3: "entities_at ?h1 es xs"
      using p(5) by (rule entities_at_cong) (use p(4,7) in \<open>auto simp: store_simps\<close>)
    have a4: "get_list ?h1 merged = Some ms" using p(8,9) by (simp add: store_simps)
    have a5: "get_entity ?h1 cur = Some (fuse c (xs ! i))" using lc by (simp add: store_simps)
    have a6: "entities_at ?h1 ms M"
      using p(12) by (rule entities_at_cong) (use p(11) in \<open>auto simp: store_simps\<close>)
    have a7: "\<forall>i\<in>set idx. i < length es" using p(13) by simp
    have pure: "consecutive_loop M c (map ((!) xs) (i # idx)) =
                consecutive_loop M (fuse c (xs ! i)) (map ((!) xs) idx)"
      using True by simp
    from Cons.IH [OF p(1) a1 a2 p(4) a3 p(6) p(7) p(8) a4 a5 p(11) a6 a7]
    show ?thesis unfolding step pure .
  next
    case False
    let ?h1 = "h[merged := ListObj (ms @ [cur])]"
    let ?h2 = "?h1 @ [EntityDict (xs ! i)]"
    let ?cp = "length h"
    have la: "list_append merged cur h = Some ?h1" by (simp add: list_append_def p(9))
    have x1: "get_entity ?h1 (es ! i) = Some (xs ! i)"
      using x ei p(6) by (simp add: store_simps)
    have step: "consecutive_loop_st entities merged cur (i # idx) h =
                consecutive_loop_st entities merged ?cp idx ?h2"
      using False by (auto simp add: p(3) i x p(10) la x1 alloc_def)
    have a1: "n \<le> length ?h2" using p(2) by simp
    have a2: "get_list ?h2 entities = Some es"
      using p(1,2,3,6) by (simp add: store_simps)
    have a3: "entities_at ?h2 es xs"
      using p(5) by (rule entities_at_cong) (use p(2,4,6) in \<open>auto simp: store_simps\<close>)
    have a4: "n \<le> ?cp" using p(2) .
    have a5: "merged \<noteq> ?cp" using lm by simp
    have a6: "get_list ?h2 merged = Some (ms @ [cur])" using lm by (simp add: store_simps)
    have a7: "get_entity ?h2 ?cp = Some (xs ! i)"
      using get_entity_snoc_new [of ?h1 "xs ! i"] by simp
    have a8: "\<forall>a\<in>set (ms @ [cur]). n \<le> a \<and> a \<noteq> ?cp \<and> a \<noteq> merged"
      using p(7,8,11) lc ms_less by auto
    have "entities_at ?h2 ms M"
      using p(12) by (rule entities_at_cong) (use p(11) ms_less in \<open>auto simp: store_simps\<close>)
    moreover have "get_entity ?h2 cur = Some c"
      using p(8,10) lc by (simp add: store_simps)
    ultimately have a9: "entities_at ?h2 (ms @ [cur]) (M @ [c])" by (rule entities_at_snoc)
    have a10: "\<forall>i\<in>set idx. i < length es" using p(13) by simp
    have pure: "consecutive_loop M c (map ((!) xs) (i # idx)) =
                consecutive_loop (M @ [c]) (xs ! i) (map ((!) xs) idx)"
      using False by auto
    from Cons.IH [OF p(1) a1 a2 p(4) a3 p(6) a4 a5 a6 a7 a8 a9 a10]
    show ?thesis unfolding step pure .
  qed
qed

lemma map_nth_from_1: "xs \<noteq> [] \<Longrightarrow> map ((!) xs) [1..<length xs] = tl xs"
  by (cases xs) (auto simp: map_upt_Suc[symmetric] map_nth simp del: upt_Suc intro: nth_equalityI)

lemma extends_take: "extends (length h) h h' \<Longrightarrow> take (length h) h' = h"
  by (simp add: extends_def)

lemma merge_consecutive_entities_st_refines:
  assumes es: "get_list h entities = Some es" and xs: "entities_at h es xs"
  shows "\<exists>out h' os.
           merge_consecutive_entities_st entities h = Some (out, h')
           \<and> take (length h) h' = h
           \<and> length h \<le> out \<and> get_list h' out = Some os
           \<and> (\<forall>a\<in>set os. length h \<le> a)
           \<and> entities_at h' os (merge_consecutive_entities xs)"
proof (cases "es = []")
  case True
  with xs have "xs = []" by (simp add: entities_at_def)
  with True es show ?thesis
    by (simp add: merge_consecutive_entities_st_def alloc_def store_simps
          merge_consecutive_entities_def entities_at_Nil)
next
  case False
  let ?n = "length h"
  let ?h1 = "h @ [ListObj []]"
  let ?h2 = "h @ [ListObj [], EntityDict (xs ! 0)]"
  let ?merged = "length h"
  let ?cur = "Suc (length h)"
  have len: "length es = length xs" using xs by (rule entities_at_length)
  with False obtain first rest where xs_eq: "xs = first # rest" by (cases xs) auto
  have le: "entities < ?n" using es by (rule get_list_less)
  have les: "\<forall>a\<in>set es. a < ?n" using xs by (auto dest: entities_at_less)
  have es1: "get_list ?h1 entities = Some es" using es le by (simp add: store_simps)
  have e0: "get_entity h (es ! 0) = Some (xs ! 0)"
    using xs False by (intro entities_at_nth) auto
  have first: "get_entity ?h1 (es ! 0) = Some (xs ! 0)"
    using e0 get_entity_less [OF e0] by (simp add: store_simps)
  have es2: "get_list ?h2 entities = Some es" using es1 le by (simp add: store_simps)
  have a1: "?n \<le> length ?h2" by simp
  have a3: "entities_at ?h2 es xs"
    using xs by (rule entities_at_cong) (use les in \<open>auto simp: store_simps\<close>)
  have a4: "get_list ?h2 ?merged = Some []"
    by (simp add: store_simps)
  have a5: "get_entity ?h2 ?cur = Some (xs ! 0)"
    using get_entity_snoc_new [of ?h1 "xs ! 0" "[]"] by simp
  have a6: "\<forall>a\<in>set []. ?n \<le> a \<and> a \<noteq> ?cur \<and> a \<noteq> ?merged" by simp
  have a7: "\<forall>i\<in>set [1..<length es]. i < length es" by simp
  from consecutive_loop_st_refines [of entities ?n ?h2 es xs ?merged ?cur "[]" "xs ! 0" "[]"
      "[1..<length es]", OF le a1 es2 les a3 _ _ _ a4 a5 a6 entities_at_Nil a7]
  obtain cur' h3 ms' M' c' where
    run: "consecutive_loop_st entities ?merged ?cur [1..<length es] ?h2 = Some (cur', h3)"
    and m3: "get_list h3 ?merged = Some ms'" and c3: "get_entity h3 cur' = Some c'"
    and fresh: "?n \<le> cur'" "cur' \<noteq> ?merged" "\<forall>a\<in>set ms'. ?n \<le> a \<and> a \<noteq> ?merged"
    and at3: "entities_at h3 ms' M'"
    and pure: "consecutive_loop [] (xs ! 0) (map ((!) xs) [1..<length es]) = (M', c')"
    by auto
  let ?h4 = "h3[?merged := ListObj (ms' @ [cur'])]"
  have lm3: "?merged < length h3" using m3 by (rule get_list_less)
  have la: "list_append ?merged cur' h3 = Some ?h4" by (simp add: list_append_def m3)
  have run': "consecutive_loop_st entities ?merged ?cur [Suc 0..<length es] ?h2 = Some (cur', h3)"
    using run by simp
  have result: "merge_consecutive_entities_st entities h = Some (?merged, ?h4)"
    using False
    by (simp add: merge_consecutive_entities_st_def es alloc_def es1 first es2 run' la
          del: upt_Suc)
  have "extends ?n ?h2 h3"
    using run by (rule consecutive_loop_st_extends) simp_all
  moreover have "extends ?n h ?h2" by (simp add: extends_def)
  moreover have "extends ?n h3 ?h4" by (rule extends_update) simp
  ultimately have "extends ?n h ?h4" by (blast intro: extends_trans)
  then have frame: "take ?n ?h4 = h" by (rule extends_take)
  have out: "get_list ?h4 ?merged = Some (ms' @ [cur'])" using lm3 by (simp add: store_simps)
  have "entities_at ?h4 ms' M'"
    using at3 by (rule entities_at_cong) (use fresh in \<open>auto simp: store_simps\<close>)
  moreover have "get_entity ?h4 cur' = Some c'" using c3 fresh by (simp add: store_simps)
  ultimately have at4: "entities_at ?h4 (ms' @ [cur']) (M' @ [c'])" by (rule entities_at_snoc)
  have "map ((!) xs) [1..<length es] = rest"
    using map_nth_from_1 [of xs] by (simp add: len xs_eq del: upt_Suc)
  with pure have "merge_consecutive_entities xs = M' @ [c']"
    by (simp add: merge_consecutive_entities_def xs_eq)
  with result frame out at4 fresh show ?thesis by auto
qed

lemma same_except_snoc: "same_except W h (h @ [v])"
  by (simp add: same_except_def nth_append)

lemma same_except_update:
  assumes "a \<in> W"
  shows "same_except W h (h[a := v])"
proof -
  have "h[a := v] ! b = h ! b" if "b \<notin> W" for b
  proof -
    from that assms have "a \<noteq> b" by auto
    then show ?thesis by simp
  qed
  then show ?thesis by (simp add: same_except_def)
qed

lemma same_except_trans:
  "same_except W h h1 \<Longrightarrow> same_except W h1 h2 \<Longrightarrow> same_except W h h2"
  by (auto simp: same_except_def)

lemma same_except_lookup:
  "same_except W h h' \<Longrightarrow> a < length h \<Longrightarrow> a \<notin> W \<Longrightarrow> lookup h' a = lookup h a"
  by (auto simp: same_except_def lookup_def)

lemma same_except_get_entity:
  "same_except W h h' \<Longrightarrow> a < length h \<Longrightarrow> a \<notin> W \<Longrightarrow> get_entity h' a = get_entity h a"
  by (simp add: get_entity_def same_except_lookup)

lemma same_except_get_list:
  "same_except W h h' \<Longrightarrow> a < length h \<Longrightarrow> a \<notin> W \<Longrightarrow> get_list h' a = get_list h a"
  by (simp add: get_list_def same_except_lookup)

lemma same_except_get_detection:
  "same_except W h h' \<Longrightarrow> a < length h \<Longrightarrow> a \<notin> W \<Longrightarrow> get_detection h' a = get_detection h a"
  by (simp add: get_detection_def same_except_lookup)

lemma same_except_entities_at:
  assumes "same_except W h h'" "entities_at h as xs" "\<forall>a\<in>set as. a \<notin> W"
  shows "entities_at h' as xs"
  using assms(2)
proof (rule entities_at_cong)
  fix a
  assume a: "a \<in> set as"
  with assms(2) have "a < length h" by (rule entities_at_less)
  with assms(1,3) a show "get_entity h' a = get_entity h a"
    by (simp add: same_except_get_entity)
qed

lemma same_except_extends:
  assumes "same_except W h h'" "\<forall>a\<in>W. n \<le> a" "n \<le> length h"
  shows "extends n h h'"
proof -
  have len: "length h \<le> length h'" using assms(1) by (simp add: same_except_def)
  have "h' ! i = h ! i" if "i < n" for i
  proof -
    from that assms(2) have "i \<notin> W" by auto
    moreover from that assms(3) have "i < length h" by simp
    ultimately show ?thesis using assms(1) by (simp add: same_except_def)
  qed
  then have "take n h' = take n h"
    using len assms(3) by (intro nth_take_lemma) auto
  with len show ?thesis by (simp add: extends_def)
qed

lemma same_except_length: "same_except W h h' \<Longrightarrow> length h \<le> length h'"
  by (simp add: same_except_def)

lemma entity_not_set: "get_entity h a = Some x \<Longrightarrow> get_set h s = Some S \<Longrightarrow> a \<noteq> s"
  by (auto simp: get_entity_def get_set_def split: option.splits obj.splits)

lemma entity_not_list: "get_entity h a = Some x \<Longrightarrow> get_list h l = Some xs \<Longrightarrow> a \<noteq> l"
  by (auto simp: get_entity_def get_list_def split: option.splits obj.splits)

lemma detections_at_Cons:
  "detections_at h (a # as) ps \<longleftrightarrow>
     (\<exists>p ps'. ps = p # ps' \<and> get_detection h a = Some p \<and> detections_at h as ps')"
  by (cases ps) (auto simp: detections_at_def)

lemma detections_at_less: "detections_at h as ps \<Longrightarrow> a \<in> set as \<Longrightarrow> a < length h"
  unfolding detections_at_def
  by (metis get_detection_less in_set_conv_nth length_map nth_map)

lemma same_except_detections_at:
  assumes "same_except W h h'" "detections_at h as ps" "\<forall>a\<in>set as. a \<notin> W"
  shows "detections_at h' as ps"
proof -
  have "get_detection h' a = get_detection h a" if a: "a \<in> set as" for a
  proof -
    from assms(2) a have "a < length h" by (rule detections_at_less)
    with assms(1,3) a show ?thesis by (simp add: same_except_get_detection)
  qed
  then have "map (get_detection h') as = map (get_detection h) as" by simp
  with assms(2) show ?thesis by (simp add: detections_at_def)
qed

lemma entities_at_Cons:
  "entities_at h (a # as) xs \<longleftrightarrow>
     (\<exists>x xs'. xs = x # xs' \<and> get_entity h a = Some x \<and> entities_at h as xs')"
  by (cases xs) (auto simp: entities_at_def)

lemma flatten_loop_st_refines:
  assumes "n \<le> flattened" "get_list h flattened = Some fs"
    "\<forall>a\<in>set fs. n \<le> a \<and> a \<noteq> flattened" "entities_at h fs F"
    "\<forall>a\<in>set ps. a < n" "detections_at h ps P"
  shows "\<exists>h' fs'. flatten_loop_st flattened ps h = Some h' \<and> extends n h h'
           \<and> get_list h' flattened = Some fs'
           \<and> (\<forall>a\<in>set fs'. n \<le> a \<and> a \<noteq> flattened)
           \<and> entities_at h' fs' (F @ map flatten P)"
  using assms
proof (induction ps arbitrary: h fs F P)
  case Nil
  then show ?case by (auto simp: detections_at_def extends_refl)
next
  case (Cons a ps)
  note p = Cons.prems
  from p(6) obtain q P' where P: "P = q # P'" and q: "get_detection h a = Some q"
    and rest: "detections_at h ps P'"
    by (auto simp: detections_at_Cons)
  let ?d = "length h"
  let ?h1 = "h @ [EntityDict (flatten q)]"
  let ?h2 = "?h1[flattened := ListObj (fs @ [?d])]"
  have lf: "flattened < length h" using p(2) by (rule get_list_less)
  have f1: "get_list ?h1 flattened = Some fs" using p(2) lf by (simp add: store_simps)
  have la: "list_append flattened ?d ?h1 = Some ?h2" by (simp add: list_append_def f1)
  have step: "flatten_loop_st flattened (a # ps) h = flatten_loop_st flattened ps ?h2"
    by (simp add: q alloc_def la)
  have se: "same_except {flattened} h ?h2"
    by (rule same_except_trans [OF same_except_snoc same_except_update]) simp
  have e: "extends n h ?h2" using se p(1) lf by (auto intro: same_except_extends)
  have a2: "get_list ?h2 flattened = Some (fs @ [?d])" using lf by (simp add: store_simps)
  have a3: "\<forall>a\<in>set (fs @ [?d]). n \<le> a \<and> a \<noteq> flattened" using p(1,3) lf by auto
  have "entities_at ?h2 fs F"
    using se p(4) by (rule same_except_entities_at) (use p(3) in auto)
  moreover have "get_entity ?h2 ?d = Some (flatten q)"
    using lf get_entity_snoc_new [of h "flatten q" "[]"] by (simp add: store_simps)
  ultimately have a4: "entities_at ?h2 (fs @ [?d]) (F @ [flatten q])" by (rule entities_at_snoc)
  have a5: "\<forall>a\<in>set ps. a < n" using p(5) by simp
  have a6: "detections_at ?h2 ps P'"
    using se rest by (rule same_except_detections_at) (use p(1,5) in auto)
  from Cons.IH [OF p(1) a2 a3 a4 a5 a6] e show ?case
    unfolding step P by (auto intro: extends_trans)
qed

lemma map_insort_key:
  "map f (insort_key (\<lambda>a. k (f a)) x ys) = insort_key k (f x) (map f ys)"
  by (induction ys) simp_all

lemma map_sort_key: "map f (sort_key (\<lambda>a. k (f a)) xs) = sort_key k (map f xs)"
  by (induction xs) (simp_all add: map_insort_key)

lemma entities_at_the: "entities_at h as xs \<Longrightarrow> xs = map (\<lambda>a. the (get_entity h a)) as"
  unfolding entities_at_def
  by (induction as arbitrary: xs) (auto)

lemma entities_at_sort_key:
  assumes "entities_at h fs F"
  shows "entities_at h (sort_key (\<lambda>a. sort_key_of (the (get_entity h a))) fs)
           (sort_key sort_key_of F)"
proof -
  let ?s = "sort_key (\<lambda>a. sort_key_of (the (get_entity h a))) fs"
  have F: "F = map (\<lambda>a. the (get_entity h a)) fs" using assms by (rule entities_at_the)
  have "sort_key sort_key_of F = map (\<lambda>a. the (get_entity h a)) ?s"
    unfolding F by (rule map_sort_key [symmetric])
  moreover have "\<forall>a\<in>set ?s. get_entity h a \<noteq> None"
    using assms unfolding entities_at_def
    by (metis (no_types, lifting) set_sort in_set_conv_nth length_map nth_map option.distinct(1))
  ultimately show ?thesis
    by (auto simp: entities_at_def)
qed

lemma sort_st_refines:
  assumes "get_list h flattened = Some fs" "entities_at h fs F"
    "\<forall>a\<in>set fs. a \<noteq> flattened"
  shows "\<exists>h' fs'. sort_st flattened h = Some h' \<and> same_except {flattened} h h'
           \<and> length h' = length h
           \<and> get_list h' flattened = Some fs' \<and> set fs' = set fs
           \<and> entities_at h' fs' (sort_key sort_key_of F)"
proof -
  let ?s = "sort_key (\<lambda>a. sort_key_of (the (get_entity h a))) fs"
  let ?h' = "h[flattened := ListObj ?s]"
  have lf: "flattened < length h" using assms(1) by (rule get_list_less)
  have "list_all (\<lambda>a. get_entity h a \<noteq> None) fs"
    using assms(2) unfolding entities_at_def list_all_iff
    by (metis in_set_conv_nth length_map nth_map option.distinct(1))
  then have r: "sort_st flattened h = Some ?h'"
    by (simp add: sort_st_def assms(1))
  have se: "same_except {flattened} h ?h'" by (rule same_except_update) simp
  have "entities_at h ?s (sort_key sort_key_of F)" using assms(2) by (rule entities_at_sort_key)
  with se have "entities_at ?h' ?s (sort_key sort_key_of F)"
    by (rule same_except_entities_at) (use assms(3) in auto)
  with r se lf show ?thesis by (auto simp: store_simps)
qed

lemma open_cluster_st_effect:
  "\<exists>c. open_cluster_st x h = (c, h @ [SetObj [e_explanation x]])
       \<and> current_explanation c = length h
       \<and> cluster_at (h @ [SetObj [e_explanation x]]) c (open_cluster x)"
  by (simp add: open_cluster_st_def alloc_def cluster_at_def open_cluster_def get_set_snoc_new)

lemma absorb_st_effect:
  assumes "cluster_at h c C"
  shows "\<exists>c' h'. absorb_st c x h = Some (c', h') \<and> cluster_at h' c' (absorb C x)
           \<and> current_explanation c' = current_explanation c \<and> length h' = length h
           \<and> same_except {current_explanation c} h h'"
proof -
  let ?s = "current_explanation c"
  let ?h' = "h[?s := SetObj (set_add (e_explanation x) (current_explanation C))]"
  have g: "get_set h ?s = Some (current_explanation C)" using assms by (simp add: cluster_at_def)
  then have l: "?s < length h" by (rule get_set_less)
  have se: "same_except {?s} h ?h'" by (rule same_except_update) simp
  show ?thesis
    using assms g l se
    by (auto simp: absorb_st_def Let_def set_add_st_def cluster_at_def absorb_def store_simps)
qed

lemma close_cluster_st_effect:
  assumes "cluster_at h c C" "get_list h merged = Some ms"
  shows "\<exists>h'. close_cluster_st merged c h = Some h' \<and> length h' = Suc (length h)
           \<and> same_except {merged} h h'
           \<and> get_list h' merged = Some (ms @ [length h])
           \<and> get_entity h' (length h) = Some (close_cluster C)"
proof -
  let ?d = "length h"
  let ?h1 = "h @ [EntityDict (close_cluster C)]"
  let ?h' = "?h1[merged := ListObj (ms @ [?d])]"
  have lm: "merged < length h" using assms(2) by (rule get_list_less)
  have m1: "get_list ?h1 merged = Some ms" using assms(2) lm by (simp add: store_simps)
  have r: "close_cluster_st merged c h = Some ?h'"
    using assms(1) m1
    by (simp add: close_cluster_st_def cluster_at_def alloc_def close_cluster_def Let_def
          list_append_def)
  have se: "same_except {merged} h ?h'"
    by (rule same_except_trans [OF same_except_snoc same_except_update]) simp
  have "get_entity ?h' ?d = Some (close_cluster C)"
    using lm get_entity_snoc_new [of h "close_cluster C" "[]"] by (simp add: store_simps)
  with r se lm show ?thesis by (simp add: store_simps)
qed

lemma sweep_st_refines:
  assumes "n \<le> merged" "merged < b" "b \<le> length h" "get_list h merged = Some ms"
    "\<forall>a\<in>set ms. b \<le> a" "entities_at h ms M"
    "\<forall>a\<in>set fs. a < b \<and> a \<noteq> merged" "entities_at h fs F"
    "clusters_at b h cur C"
  shows "\<exists>cur' h' ms' M' C'.
           sweep_st merged cur fs h = Some (cur', h') \<and> extends n h h'
           \<and> get_list h' merged = Some ms' \<and> (\<forall>a\<in>set ms'. b \<le> a)
           \<and> entities_at h' ms' M' \<and> clusters_at b h' cur' C'
           \<and> sweep M C F = (M', C')"
  using assms
proof (induction fs arbitrary: h ms M F cur C)
  case Nil
  then have "F = []" by (simp add: entities_at_def)
  with Nil show ?case by (auto simp: extends_refl)
next
  case (Cons a fs)
  note p = Cons.prems
  from p(8) obtain x F' where F: "F = x # F'" and x: "get_entity h a = Some x"
    and rest: "entities_at h fs F'"
    by (auto simp: entities_at_Cons)
  have nb: "n \<le> b" using p(1,2) by simp
  have nl: "n \<le> length h" using nb p(3) by simp
  have fs_b: "\<forall>a\<in>set fs. a < b \<and> a \<noteq> merged" using p(7) by simp
  have ms_ne: "\<forall>a\<in>set ms. a \<noteq> merged" using p(2,5) by auto
  have lm: "merged < length h" using p(4) by (rule get_list_less)
  show ?case
  proof (cases cur)
    case None
    with p(9) have C: "C = None" by (simp add: clusters_at_def)
    let ?h1 = "h @ [SetObj [e_explanation x]]"
    from open_cluster_st_effect [of x h] obtain c where
      o: "open_cluster_st x h = (c, ?h1)" and s: "current_explanation c = length h"
      and cl: "cluster_at ?h1 c (open_cluster x)" by blast
    have step: "sweep_st merged cur (a # fs) h = sweep_st merged (Some c) fs ?h1"
      by (simp add: None x o)
    have pure: "sweep M C F = sweep M (Some (open_cluster x)) F'" by (simp add: C F)
    have se: "same_except {} h ?h1" by (rule same_except_snoc)
    have e: "extends n h ?h1" using se _ nl by (rule same_except_extends) simp
    have a3: "b \<le> length ?h1" using p(3) by simp
    have a4: "get_list ?h1 merged = Some ms" using p(4) lm by (simp add: store_simps)
    have a6: "entities_at ?h1 ms M" using se p(6) by (rule same_except_entities_at) simp
    have a8: "entities_at ?h1 fs F'" using se rest by (rule same_except_entities_at) simp
    have a9: "clusters_at b ?h1 (Some c) (Some (open_cluster x))"
      using cl s p(3) by (simp add: clusters_at_def)
    from Cons.IH [OF p(1) p(2) a3 a4 p(5) a6 fs_b a8 a9] e show ?thesis
      unfolding step pure by (blast intro: extends_trans)
  next
    case (Some c)
    with p(9) obtain C' where C: "C = Some C'" and cl: "cluster_at h c C'"
      and sb: "b \<le> current_explanation c"
      by (auto simp: clusters_at_def)
    have ends: "current_end c = current_end C'" using cl by (simp add: cluster_at_def)
    have gs: "get_set h (current_explanation c) = Some (current_explanation C')"
      using cl by (simp add: cluster_at_def)
    show ?thesis
    proof (cases "e_start x < current_end c")
      case True
      from absorb_st_effect [OF cl, of x] obtain c' h1 where
        ab: "absorb_st c x h = Some (c', h1)" and cl1: "cluster_at h1 c' (absorb C' x)"
        and s1: "current_explanation c' = current_explanation c" and len: "length h1 = length h"
        and se: "same_except {current_explanation c} h h1" by blast
      have step: "sweep_st merged cur (a # fs) h = sweep_st merged (Some c') fs h1"
        using True by (simp add: Some x ab)
      have pure: "sweep M C F = sweep M (Some (absorb C' x)) F'"
        using True by (simp add: C F ends)
      have e: "extends n h h1" using se _ nl by (rule same_except_extends) (use sb nb in auto)
      have a3: "b \<le> length h1" using p(3) len by simp
      have a4: "get_list h1 merged = Some ms"
        using same_except_get_list [OF se lm] sb p(2,4) by auto
      have "\<forall>a\<in>set ms. a \<noteq> current_explanation c"
        using p(6) gs by (metis entities_at_def entity_not_set in_set_conv_nth length_map nth_map)
      then have a6: "entities_at h1 ms M"
        using same_except_entities_at [OF se p(6)] by auto
      have a8: "entities_at h1 fs F'"
        using se rest by (rule same_except_entities_at) (use fs_b sb in auto)
      have a9: "clusters_at b h1 (Some c') (Some (absorb C' x))"
        using cl1 s1 sb by (simp add: clusters_at_def)
      from Cons.IH [OF p(1) p(2) a3 a4 p(5) a6 fs_b a8 a9] e show ?thesis
        unfolding step pure by (blast intro: extends_trans)
    next
      case False
      from close_cluster_st_effect [OF cl p(4)] obtain h1 where
        cc: "close_cluster_st merged c h = Some h1" and len1: "length h1 = Suc (length h)"
        and se1: "same_except {merged} h h1"
        and m1: "get_list h1 merged = Some (ms @ [length h])"
        and d1: "get_entity h1 (length h) = Some (close_cluster C')" by blast
      let ?h2 = "h1 @ [SetObj [e_explanation x]]"
      from open_cluster_st_effect [of x h1] obtain c' where
        o: "open_cluster_st x h1 = (c', ?h2)" and s: "current_explanation c' = length h1"
        and cl2: "cluster_at ?h2 c' (open_cluster x)" by blast
      have step: "sweep_st merged cur (a # fs) h = sweep_st merged (Some c') fs ?h2"
        using False by (simp add: Some x cc o)
      have pure: "sweep M C F = sweep (M @ [close_cluster C']) (Some (open_cluster x)) F'"
        using False by (simp add: C F ends)
      have se2: "same_except {merged} h ?h2"
        using se1 same_except_snoc by (rule same_except_trans)
      have e: "extends n h ?h2" using se2 _ nl by (rule same_except_extends) (use p(1) in auto)
      have a3: "b \<le> length ?h2" using p(3) len1 by simp
      have lm1: "merged < length h1" using lm len1 by simp
      have a4: "get_list ?h2 merged = Some (ms @ [length h])"
        using m1 lm1 by (simp add: store_simps)
      have a5: "\<forall>a\<in>set (ms @ [length h]). b \<le> a" using p(3,5) by auto
      have "entities_at ?h2 ms M"
        using se2 p(6) by (rule same_except_entities_at) (use ms_ne in auto)
      moreover have "get_entity ?h2 (length h) = Some (close_cluster C')"
        using d1 len1 by (simp add: store_simps)
      ultimately have a6: "entities_at ?h2 (ms @ [length h]) (M @ [close_cluster C'])"
        by (rule entities_at_snoc)
      have a8: "entities_at ?h2 fs F'"
        using se2 rest by (rule same_except_entities_at) (use fs_b in auto)
      have a9: "clusters_at b ?h2 (Some c') (Some (open_cluster x))"
        using cl2 s p(3) len1 by (simp add: clusters_at_def)
      from Cons.IH [OF p(1) p(2) a3 a4 a5 a6 fs_b a8 a9] e show ?thesis
        unfolding step pure by (blast intro: extends_trans)
    qed
  qed
qed

lemma extends_length_le: "extends n h h' \<Longrightarrow> length h \<le> length h'"
  by (simp add: extends_def)

lemma merge_entities_st_refines:
  assumes ps: "get_list h predictions = Some ps" and xs: "detections_at h ps xs"
  shows "\<exists>out h' os.
           merge_entities_st predictions h = Some (out, h')
           \<and> take (length h) h' = h
           \<and> length h \<le> out \<and> get_list h' out = Some os
           \<and> (\<forall>a\<in>set os. length h \<le> a)
           \<and> entities_at h' os (merge_entities xs)"
proof -
  let ?n = "length h"
  let ?h1 = "h @ [ListObj []]"
  let ?F = "sort_key sort_key_of (map flatten xs)"
  have lp: "predictions < ?n" using ps by (rule get_list_less)
  have ps1: "get_list ?h1 predictions = Some ps" using ps lp by (simp add: store_simps)
  have e01: "extends ?n h ?h1" by (simp add: extends_def)
  \<comment> \<open>the loop of lines 17-25\<close>
  have "same_except {} h ?h1" by (rule same_except_snoc)
  then have "detections_at ?h1 ps xs"
    using xs by (rule same_except_detections_at) simp
  moreover have "\<forall>a\<in>set ps. a < ?n" using xs by (auto dest: detections_at_less)
  moreover have "get_list ?h1 ?n = Some []" by (simp add: store_simps)
  ultimately obtain h2 fs where
    fl: "flatten_loop_st ?n ps ?h1 = Some h2" and e12: "extends ?n ?h1 h2"
    and f2: "get_list h2 ?n = Some fs" and fs: "\<forall>a\<in>set fs. ?n \<le> a \<and> a \<noteq> ?n"
    and at2: "entities_at h2 fs (map flatten xs)"
    using flatten_loop_st_refines [of ?n ?n ?h1 "[]" "[]" ps xs]
    by (auto simp: entities_at_Nil)
  \<comment> \<open>the sort of line 27\<close>
  from sort_st_refines [OF f2 at2] fs obtain h3 fs' where
    so: "sort_st ?n h2 = Some h3" and se23: "same_except {?n} h2 h3"
    and len3: "length h3 = length h2" and f3: "get_list h3 ?n = Some fs'"
    and fs': "set fs' = set fs" and at3: "entities_at h3 fs' ?F"
    by auto
  have n2: "?n < length h2" using f2 by (rule get_list_less)
  have e23: "extends ?n h2 h3" using se23 _ by (rule same_except_extends) (use n2 in auto)
  \<comment> \<open>the sweep of lines 29-68\<close>
  let ?merged = "length h3"
  let ?b = "Suc (Suc (length h3))"
  let ?h5 = "h3 @ [ListObj [], SetObj []]"
  have se35: "same_except {} h3 ?h5" by (simp add: same_except_def nth_append)
  have e35: "extends ?n h3 ?h5" using se35 _ by (rule same_except_extends) (use n2 len3 in auto)
  have f5: "get_list ?h5 ?n = Some fs'" using f3 n2 len3 by (simp add: store_simps)
  have fs_lt: "\<forall>a\<in>set fs'. a < length h3"
    using at3 by (auto dest: entities_at_less)
  have "?n \<le> ?merged" using n2 len3 by simp
  moreover have "?merged < ?b" by simp
  moreover have "?b \<le> length ?h5" by simp
  moreover have "get_list ?h5 ?merged = Some []" by (simp add: store_simps)
  moreover have "\<forall>a\<in>set []. ?b \<le> a" by simp
  moreover have "entities_at ?h5 [] []" by (rule entities_at_Nil)
  moreover have "\<forall>a\<in>set fs'. a < ?b \<and> a \<noteq> ?merged" using fs_lt by auto
  moreover have "entities_at ?h5 fs' ?F"
    using se35 at3 by (rule same_except_entities_at) simp
  moreover have "clusters_at ?b ?h5 None None" by (simp add: clusters_at_def)
  ultimately obtain cur h6 ms M C where
    sw: "sweep_st ?merged None fs' ?h5 = Some (cur, h6)" and e56: "extends ?n ?h5 h6"
    and m6: "get_list h6 ?merged = Some ms" and ms: "\<forall>a\<in>set ms. ?b \<le> a"
    and at6: "entities_at h6 ms M" and cl6: "clusters_at ?b h6 cur C"
    and pure: "sweep [] None ?F = (M, C)"
    using sweep_st_refines [of ?n ?merged ?b ?h5 "[]" "[]" fs' ?F None None]
    by blast
  have e06: "extends ?n h h6"
    using e01 e12 e23 e35 e56 by (blast intro: extends_trans)
  have nm: "?n \<le> ?merged" using n2 len3 by simp
  have run: "merge_entities_st predictions h =
      (case cur of
         None \<Rightarrow> Some (?merged, h6)
       | Some c \<Rightarrow> close_cluster_st ?merged c h6 \<bind> (\<lambda>h7. Some (?merged, h7)))"
    by (simp add: merge_entities_st_def alloc_def ps1 fl so f5 sw)
  show ?thesis
  proof (cases cur)
    case None
    with cl6 have "C = None" by (simp add: clusters_at_def)
    with pure have "merge_entities xs = M" by (simp add: merge_entities_def)
    moreover have "\<forall>a\<in>set ms. ?n \<le> a" using ms nm by auto
    ultimately show ?thesis
      using run None e06 m6 at6 nm by (auto simp: extends_take)
  next
    case (Some c)
    with cl6 obtain C' where C: "C = Some C'" and cl: "cluster_at h6 c C'"
      by (auto simp: clusters_at_def)
    from close_cluster_st_effect [OF cl m6] obtain h7 where
      cc: "close_cluster_st ?merged c h6 = Some h7" and len7: "length h7 = Suc (length h6)"
      and se67: "same_except {?merged} h6 h7"
      and m7: "get_list h7 ?merged = Some (ms @ [length h6])"
      and d7: "get_entity h7 (length h6) = Some (close_cluster C')" by blast
    have l6: "?n \<le> length h6" using e06 by (rule extends_length_le)
    have e67: "extends ?n h6 h7" using se67 _ l6 by (rule same_except_extends) (use nm in auto)
    have e07: "extends ?n h h7" using e06 e67 by (rule extends_trans)
    have "entities_at h7 ms M"
      using se67 at6 by (rule same_except_entities_at) (use ms in auto)
    then have at7: "entities_at h7 (ms @ [length h6]) (M @ [close_cluster C'])"
      using d7 by (rule entities_at_snoc)
    have "merge_entities xs = M @ [close_cluster C']"
      using pure C by (simp add: merge_entities_def)
    moreover have "\<forall>a\<in>set (ms @ [length h6]). ?n \<le> a" using ms nm l6 by auto
    ultimately show ?thesis
      using run Some cc e07 m7 at7 nm by (auto simp: extends_take)
  qed
qed

lemma single_store_run: "merge_entities_st 1 single_store = Some (4, single_store_after)"
  by (simp add: single_store_after_def single_store_def merge_entities_st_def alloc_def
       get_list_def get_detection_def
       get_entity_def get_set_def lookup_def list_append_def sort_st_def flatten_def
       open_cluster_st_def close_cluster_st_def sort_key_of_def)

lemma single_store_rerun: "merge_entities_st 4 single_store_after = None"
  by (simp add: single_store_after_def single_store_def merge_entities_st_def alloc_def
       get_list_def get_detection_def lookup_def)

section \<open>The claims\<close>

text \<open>
  C1, as amended. Two detections of one category with spans \<open>[0,5)\<close> at score 0.9 and
  \<open>[3,8)\<close> at score 0.7, in either order of the input, give exactly one record: it
  starts at 0 and ends at 5, not 8, because the second detection's score is not
  greater than the cluster's and so line 49 is not reached; its word, category and
  score 0.9 are the first detection's, and its explanation is the sorted join of the two
  explanations (one of them when they are equal).
\<close>

theorem merge_entities_scenario1:
  "merge_entities
     [\<lparr> p_word = w1, p_start = 0, p_end = 5, p_entity_type = t, p_score = 9 / 10,
        p_analysis_explanation = \<lparr> textual_explanation = x1 \<rparr> \<rparr>,
      \<lparr> p_word = w2, p_start = 3, p_end = 8, p_entity_type = t, p_score = 7 / 10,
        p_analysis_explanation = \<lparr> textual_explanation = x2 \<rparr> \<rparr>]
   = [\<lparr> e_word = w1, e_start = 0, e_end = 5, e_type = t, e_score = 9 / 10,
        e_explanation = (if x1 = x2 then x1
                         else if x1 < x2 then x1 @ '' and '' @ x2
                         else x2 @ '' and '' @ x1) \<rparr>]
   \<and>
   merge_entities
     [\<lparr> p_word = w2, p_start = 3, p_end = 8, p_entity_type = t, p_score = 7 / 10,
        p_analysis_explanation = \<lparr> textual_explanation = x2 \<rparr> \<rparr>,
      \<lparr> p_word = w1, p_start = 0, p_end = 5, p_entity_type = t, p_score = 9 / 10,
        p_analysis_explanation = \<lparr> textual_explanation = x1 \<rparr> \<rparr>]
   = [\<lparr> e_word = w1, e_start = 0, e_end = 5, e_type = t, e_score = 9 / 10,
        e_explanation = (if x1 = x2 then x1
                         else if x1 < x2 then x1 @ '' and '' @ x2
                         else x2 @ '' and '' @ x1) \<rparr>]"
  by (auto simp add: merge_entities_def flatten_def sort_key_of_def open_cluster_def
        absorb_def close_cluster_def set_add_def)

text \<open>
  C1 as stated fails: on the scenario's input the one record returned ends at 5, so
  the list of the ends is not \<open>[8]\<close>.
\<close>

theorem merge_entities_scenario1_counterexample:
  "map e_end (merge_entities
     [\<lparr> p_word = ''Alice'', p_start = 0, p_end = 5, p_entity_type = ''PERSON'',
        p_score = 9 / 10, p_analysis_explanation = \<lparr> textual_explanation = ''x'' \<rparr> \<rparr>,
      \<lparr> p_word = ''ce Bo'', p_start = 3, p_end = 8, p_entity_type = ''PERSON'',
        p_score = 7 / 10, p_analysis_explanation = \<lparr> textual_explanation = ''y'' \<rparr> \<rparr>])
   \<noteq> [8]"
  by (simp add: merge_entities_def flatten_def sort_key_of_def open_cluster_def
        absorb_def close_cluster_def set_add_def)

text \<open>
  C2, as amended. When every input record has \<open>0 \<le> start < end\<close>, the start offset
  of every input record lies in the span \<open>[start, end)\<close> of exactly one record that
  \<open>merge_entities\<close> returns. (The whole span need not: the end of a cluster is the end
  of its last member whose score exceeded the cluster's, not the largest end.)
\<close>

theorem start_in_exactly_one_output:
  assumes wf: "\<forall>p\<in>set predictions. 0 \<le> p_start p \<and> p_start p < p_end p"
    and p: "p \<in> set predictions"
  shows "\<exists>!i. i < length (merge_entities predictions)
               \<and> start_within p (merge_entities predictions ! i)"
proof -
  let ?out = "merge_entities predictions"
  have wf': "\<forall>p\<in>set predictions. p_start p < p_end p" using wf by simp
  have d: "sorted_wrt (\<lambda>a b. e_end a \<le> e_start b) ?out"
    using merge_entities_disjoint [OF wf'] by simp
  obtain r where "r \<in> set ?out" and r: "start_within p r"
    using merge_entities_covers_starts [OF wf' p] by blast
  then obtain i where i: "i < length ?out" "start_within p (?out ! i)"
    by (auto simp: in_set_conv_nth)
  have "j = i" if j: "j < length ?out" "start_within p (?out ! j)" for j
  proof (rule ccontr)
    assume "j \<noteq> i"
    then consider "i < j" | "j < i" by linarith
    then show False
    proof cases
      case 1
      from sorted_wrt_related [OF d 1 j(1)] i(2) j(2) show False
        by (simp add: start_within_def)
    next
      case 2
      from sorted_wrt_related [OF d 2 i(1)] i(2) j(2) show False
        by (simp add: start_within_def)
    qed
  qed
  with i show ?thesis by blast
qed

theorem start_in_exactly_one_output_witness:
  "list_all (\<lambda>p. 0 \<le> p_start p \<and> p_start p < p_end p) scenario_predictions
   \<and> p_start (scenario_predictions ! 2) = 1
   \<and> map e_start (merge_entities scenario_predictions) = [0, 5]
   \<and> map e_end (merge_entities scenario_predictions) = [4, 10]
   \<and> (\<exists>!i. i < length (merge_entities scenario_predictions)
             \<and> start_within (scenario_predictions ! 2) (merge_entities scenario_predictions ! i))"
proof -
  have h: "\<forall>p\<in>set scenario_predictions. 0 \<le> p_start p \<and> p_start p < p_end p"
    by (simp add: scenario_predictions_def)
  have m: "scenario_predictions ! 2 \<in> set scenario_predictions"
    by (simp add: scenario_predictions_def)
  have "map e_start (merge_entities scenario_predictions) = [0, 5]"
    and "map e_end (merge_entities scenario_predictions) = [4, 10]"
    by (simp_all add: scenario_predictions_def merge_entities_def flatten_def sort_key_of_def
          open_cluster_def absorb_def close_cluster_def set_add_def)
  moreover have "p_start (scenario_predictions ! 2) = 1"
    by (simp add: scenario_predictions_def)
  ultimately show ?thesis
    using h start_in_exactly_one_output [OF h m] by (simp add: list_all_iff)
qed

text \<open>
  C2 as stated fails: of the two overlapping detections \<open>[0,5)\<close> at 0.9 and \<open>[3,8)\<close> at
  0.7, the second has its span within no record that is returned (the one record returned
  is \<open>[0,5)\<close>).
\<close>

theorem span_in_no_output_counterexample:
  "\<not> list_ex
       (span_within
          \<lparr> p_word = ''ce Bo'', p_start = 3, p_end = 8, p_entity_type = ''PERSON'',
            p_score = 7 / 10, p_analysis_explanation = \<lparr> textual_explanation = ''y'' \<rparr> \<rparr>)
       (merge_entities
          [\<lparr> p_word = ''Alice'', p_start = 0, p_end = 5, p_entity_type = ''PERSON'',
             p_score = 9 / 10, p_analysis_explanation = \<lparr> textual_explanation = ''x'' \<rparr> \<rparr>,
           \<lparr> p_word = ''ce Bo'', p_start = 3, p_end = 8, p_entity_type = ''PERSON'',
             p_score = 7 / 10, p_analysis_explanation = \<lparr> textual_explanation = ''y'' \<rparr> \<rparr>])"
  by (simp add: span_within_def merge_entities_def flatten_def sort_key_of_def
        open_cluster_def absorb_def close_cluster_def set_add_def)

text \<open>
  C3. When every input record has \<open>0 \<le> start < end\<close>, the records \<open>merge_entities\<close>
  returns have strictly increasing starts, and every record returned ends at or before
  the start of every later one, so no two of them overlap. \<open>merge_consecutive_entities\<close>,
  which reads the dictionaries \<open>merge_entities\<close> returns, then returns records with
  strictly increasing starts as well. It does so on every list with strictly increasing
  starts: it keeps the order of its input, and does not sort.
\<close>

theorem outputs_strictly_sorted:
  assumes "\<forall>p\<in>set predictions. 0 \<le> p_start p \<and> p_start p < p_end p"
  shows "sorted_wrt (<) (map e_start (merge_entities predictions))
         \<and> sorted_wrt (\<lambda>a b. e_end a \<le> e_start b) (merge_entities predictions)
         \<and> sorted_wrt (<) (map e_start (merge_consecutive_entities (merge_entities predictions)))
         \<and> (sorted_wrt (<) (map e_start entities) \<longrightarrow>
              sorted_wrt (<) (map e_start (merge_consecutive_entities entities)))"
proof -
  have d: "sorted_wrt (\<lambda>a b. e_end a \<le> e_start b) (merge_entities predictions)"
    and w: "\<forall>r\<in>set (merge_entities predictions). e_start r < e_end r"
    using merge_entities_disjoint [of predictions] assms by auto
  have s: "sorted_wrt (<) (map e_start (merge_entities predictions))"
    using d w by (rule disjoint_strict_starts)
  from s d merge_consecutive_entities_sorted [OF s]
    merge_consecutive_entities_sorted [of entities]
  show ?thesis by simp
qed

theorem outputs_strictly_sorted_witness:
  "list_all (\<lambda>p. 0 \<le> p_start p \<and> p_start p < p_end p) scenario_predictions
   \<and> map e_start (merge_entities scenario_predictions) = [0, 5]
   \<and> sorted_wrt (<) (map e_start (merge_entities scenario_predictions))
   \<and> sorted_wrt (\<lambda>a b. e_end a \<le> e_start b) (merge_entities scenario_predictions)
   \<and> sorted_wrt (<)
        (map e_start (merge_consecutive_entities (merge_entities scenario_predictions)))
   \<and> map e_start adjacent_entities = [0, 4, 9, 10, 12]
   \<and> sorted_wrt (<) (map e_start (merge_consecutive_entities adjacent_entities))"
proof -
  have h: "\<forall>p\<in>set scenario_predictions. 0 \<le> p_start p \<and> p_start p < p_end p"
    by (simp add: scenario_predictions_def)
  have "map e_start (merge_entities scenario_predictions) = [0, 5]"
    by (simp add: scenario_predictions_def merge_entities_def flatten_def sort_key_of_def
          open_cluster_def absorb_def close_cluster_def set_add_def)
  moreover have a: "map e_start adjacent_entities = [0, 4, 9, 10, 12]"
    by (simp add: adjacent_entities_def)
  ultimately show ?thesis
    using h outputs_strictly_sorted [OF h, of adjacent_entities]
    by (simp add: list_all_iff)
qed

text \<open>
  C4, as amended. When every input record has \<open>start < end\<close>, feeding the output of
  \<open>merge_entities\<close> to it again, with each returned dictionary put back into the shape
  \<open>merge_entities\<close> reads (\<open>as_prediction\<close>), returns that output unchanged.
\<close>

theorem merge_entities_idempotent:
  assumes "\<forall>p\<in>set predictions. p_start p < p_end p"
  shows "merge_entities (map as_prediction (merge_entities predictions))
         = merge_entities predictions"
proof -
  let ?out = "merge_entities predictions"
  have d: "sorted_wrt (\<lambda>a b. e_end a \<le> e_start b) ?out"
    and w: "\<forall>r\<in>set ?out. e_start r < e_end r"
    using merge_entities_disjoint [OF assms] by auto
  have "sorted (map sort_key_of ?out)"
    using disjoint_strict_starts [OF d w] by (rule strict_starts_sorted_keys)
  then have s: "sort_key sort_key_of ?out = ?out"
    by (rule sort_key_id_if_sorted)
  have "emitted None ?out = ?out"
  proof (cases ?out)
    case Nil
    then show ?thesis by (simp add: emitted_None_Nil)
  next
    case (Cons x xs)
    with d emitted_disjoint_unchanged [of x xs] show ?thesis
      by (simp add: emitted_None_Cons)
  qed
  with s show ?thesis
    by (simp only: merge_entities_emitted [of "map as_prediction ?out"]
          map_flatten_as_prediction)
qed

theorem merge_entities_idempotent_witness:
  "list_all (\<lambda>p. p_start p < p_end p) scenario_predictions
   \<and> length (merge_entities scenario_predictions) = 2
   \<and> merge_entities (map as_prediction (merge_entities scenario_predictions))
       = merge_entities scenario_predictions"
proof -
  have h: "\<forall>p\<in>set scenario_predictions. p_start p < p_end p"
    by (simp add: scenario_predictions_def)
  have "length (merge_entities scenario_predictions) = 2"
    by (simp add: scenario_predictions_def merge_entities_def flatten_def sort_key_of_def
          open_cluster_def absorb_def close_cluster_def set_add_def)
  with h merge_entities_idempotent [OF h] show ?thesis
    by (simp add: list_all_iff)
qed

text \<open>
  C4 as stated fails for an input with an empty span: \<open>[5,5)\<close> at score 0.5, \<open>[5,10)\<close> at
  0.25 and \<open>[6,8)\<close> at 0.75 give the two records \<open>[5,5)\<close> at 0.5 and \<open>[5,8)\<close> at 0.75; on the
  second run the sort puts \<open>[5,8)\<close> first and \<open>[5,5)\<close> is folded into it, so one record
  is returned. And without the renaming, the list returned cannot be read at all: on the
  store, the second run ends at the first read of \<open>entity['entity_type']\<close>.
\<close>

theorem merge_entities_idempotent_counterexample:
  "merge_entities (map as_prediction (merge_entities degenerate_predictions))
     \<noteq> merge_entities degenerate_predictions
   \<and> merge_entities_st 1 single_store = Some (4, single_store_after)
   \<and> merge_entities_st 4 single_store_after = None"
  using single_store_run single_store_rerun
  by (simp add: degenerate_predictions_def as_prediction_def merge_entities_def flatten_def
        sort_key_of_def open_cluster_def absorb_def close_cluster_def set_add_def)

text \<open>
  C5. With \<open>a\<close> the current entry and \<open>b\<close> the next one: when \<open>b\<close> has \<open>a\<close>'s category
  and starts where \<open>a\<close> ends, the scan goes on with one fused entry in place of the two.
  Its word is \<open>a\<close>'s followed directly by \<open>b\<close>'s, its end is \<open>b\<close>'s, its score is the mean
  of the two scores, its explanation is the \<open>" and "\<close>-join of the sorted union of the two
  sets of tokens that splitting on \<open>" and "\<close> gives, and its start and category stay
  \<open>a\<close>'s. The fused entry is the current entry for what follows, so a third entry is
  averaged with the mean of the first two. When either condition fails, \<open>a\<close> is
  output as it is and \<open>b\<close> becomes the current entry. A single entry is returned as it is.
\<close>

theorem merge_consecutive_entities_step:
  "merge_consecutive_entities [a] = [a]
   \<and> merge_consecutive_entities (a # b # rest) =
     (if e_type b = e_type a \<and> e_start b = e_end a
      then merge_consecutive_entities
             (a \<lparr> e_word := e_word a @ e_word b,
                  e_end := e_end b,
                  e_score := (e_score a + e_score b) / 2,
                  e_explanation :=
                    join '' and ''
                      (sorted_list_of_set
                         (set (split '' and '' (e_explanation a)) \<union>
                          set (split '' and '' (e_explanation b)))) \<rparr> # rest)
      else a # merge_consecutive_entities (b # rest))"
  by (simp add: merge_consecutive_entities_Cons fused_from_Cons fused_from_Nil fuse_def
        sort_set_union_py_set)

text \<open>
  An instance of C5: three adjacent entries of one category with scores 0.5, 1 and 1
  are fused with score \<open>((0.5 + 1) / 2 + 1) / 2 = 7/8\<close>, not the mean \<open>5/6\<close> of the three; the
  fourth entry is adjacent but of another category and the fifth is not adjacent, so
  neither is fused.
\<close>

theorem merge_consecutive_entities_step_witness:
  "merge_consecutive_entities adjacent_entities =
     [\<lparr> e_word = ''abcdef'', e_start = 0, e_end = 10, e_type = ''T'', e_score = 7 / 8,
        e_explanation = ''a and b and c and z'' \<rparr>,
      \<lparr> e_word = ''gh'', e_start = 10, e_end = 11, e_type = ''U'', e_score = 1,
        e_explanation = ''z'' \<rparr>,
      \<lparr> e_word = ''ij'', e_start = 12, e_end = 13, e_type = ''U'', e_score = 1,
        e_explanation = ''z'' \<rparr>]"
  using merge_consecutive_entities_step
    [of "adjacent_entities ! 0" "adjacent_entities ! 1" "drop 2 adjacent_entities"]
  by (simp add: adjacent_entities_def merge_consecutive_entities_def fuse_def split_def
        py_set_def set_union_def set_add_def)

text \<open>
  C6. \<open>summarize_pii_batch\<close> returns a result, with one record per group and in the
  order of the groups. A group's record has the group's key, \<open>n\<close> equal to the length of
  the group's value list, and \<open>avg_scores\<close> mapping every category that occurs among the
  group's flattened detections to the sum of that category's scores divided by their
  number, and no other category.
\<close>

theorem batch_counts_and_means:
  "\<exists>output. summarize_pii_batch set_iter items = Inr output
      \<and> list_all2
           (\<lambda>item s. s_column s = d_key item
                    \<and> s_n s = length (d_value item)
                    \<and> map_of (s_avg_scores s) = mean_scores (concat (d_recognizer_results item)))
           items output"
proof -
  have "list_all2
           (\<lambda>item s. s_column s = d_key item
                    \<and> s_n s = length (d_value item)
                    \<and> map_of (s_avg_scores s) = mean_scores (concat (d_recognizer_results item)))
           items (map (summary_of set_iter) items)"
  proof (rule list_all2_map_right)
    fix item
    show "s_column (summary_of set_iter item) = d_key item
      \<and> s_n (summary_of set_iter item) = length (d_value item)
      \<and> map_of (s_avg_scores (summary_of set_iter item)) =
          mean_scores (concat (d_recognizer_results item))"
      by (simp add: map_of_avg_scores) (simp add: summary_of_def Let_def)
  qed
  then show ?thesis by (simp add: summarize_pii_batch_total)
qed

theorem batch_counts_and_means_witness:
  "summarize_pii_batch id example_batch =
     Inr [\<lparr> s_column = ''col'', s_n = 2,
            s_avg_scores = [(''A'', 7 / 10), (''B'', 1 / 2)],
            s_explanation = [(''A'', ''x''), (''B'', ''y'')] \<rparr>]
   \<and> mean_scores (concat (d_recognizer_results (hd example_batch))) ''A'' = Some (7 / 10)
   \<and> mean_scores (concat (d_recognizer_results (hd example_batch))) ''B'' = Some (1 / 2)
   \<and> mean_scores (concat (d_recognizer_results (hd example_batch))) ''C'' = None"
  using batch_counts_and_means [of id example_batch]
  by (simp add: example_batch_def summarize_pii_batch_def summarize_item_def
        accumulate_all_def accumulate_def combined_explanations_def set_add_def Let_def
        mean_scores_def scores_of_def)

text \<open>
  C7, as amended. For every group and category, the combined explanation is the
  \<open>" and "\<close>-join of the set of the group's explanation strings for that category: every
  distinct string occurs once, however often it was seen, and the strings stand in the
  order in which the set iterates (\<open>set_iter\<close>), which the code does not sort.
  \<open>py_set_first_seen\<close>, \<open>set_py_set\<close> and \<open>distinct_py_set\<close> say what the set holds.
\<close>

theorem batch_explanations_deduplicated:
  "\<exists>output. summarize_pii_batch set_iter items = Inr output
      \<and> list_all2
           (\<lambda>item s. map_of (s_explanation s) =
                      joined_explanations set_iter (concat (d_recognizer_results item)))
           items output"
proof -
  have "list_all2
           (\<lambda>item s. map_of (s_explanation s) =
                      joined_explanations set_iter (concat (d_recognizer_results item)))
           items (map (summary_of set_iter) items)"
    by (rule list_all2_map_right) (rule map_of_explanation)
  then show ?thesis by (simp add: summarize_pii_batch_total)
qed

theorem batch_explanations_deduplicated_witness:
  "summarize_pii_batch id repeated_batch =
     Inr [\<lparr> s_column = ''col'', s_n = 3, s_avg_scores = [(''A'', 1 / 2)],
            s_explanation = [(''A'', ''x and w'')] \<rparr>]
   \<and> joined_explanations id (concat (d_recognizer_results (hd repeated_batch))) ''A''
       = Some ''x and w''"
  using batch_explanations_deduplicated [of id repeated_batch]
  by (simp add: repeated_batch_def summarize_pii_batch_def summarize_item_def
        accumulate_all_def accumulate_def combined_explanations_def set_add_def Let_def
        joined_explanations_def explanations_of_def py_set_def)

text \<open>
  C7 as stated fails: for a group whose category \<open>A\<close> was explained by \<open>x\<close>, \<open>x\<close> and \<open>w\<close>, in
  this order, the join of the strings as they were seen is \<open>x and x and w\<close>, which is not
  what is returned, even when the set iterates in the order of insertion.
\<close>

theorem batch_explanations_counterexample:
  "summarize_pii_batch id repeated_batch \<noteq>
     Inr [\<lparr> s_column = ''col'', s_n = 3, s_avg_scores = [(''A'', 1 / 2)],
            s_explanation =
              [(''A'', join '' and ''
                         (explanations_of ''A''
                            (concat (d_recognizer_results (hd repeated_batch)))))] \<rparr>]"
  by (simp add: repeated_batch_def summarize_pii_batch_def summarize_item_def
        accumulate_all_def accumulate_def combined_explanations_def set_add_def Let_def
        explanations_of_def)

text \<open>
  C8. On the empty list every stage returns the empty list, and the batch stage
  returns it as a result, not as an error.
\<close>

theorem empty_input_empty_output:
  "merge_entities [] = []
   \<and> merge_consecutive_entities [] = []
   \<and> summarize_pii [] text = []
   \<and> summarize_pii_batch set_iter [] = Inr []"
  by (simp add: merge_entities_def merge_consecutive_entities_def summarize_pii_def
        summarize_pii_batch_def)

text \<open>
  C9. On a store in which \<open>predictions\<close> refers to a list of detections, \<open>merge_entities\<close>
  returns, and every object that was in the store before the call, the list passed in and
  every record in it among them, is the same after it: the store after the call is the
  store before it followed by new objects. The list returned and all the records in it
  are new objects, and they hold what \<open>merge_entities\<close> of the first sections computes.
  The same holds for \<open>merge_consecutive_entities\<close> on a list of the dictionaries it reads,
  although it assigns to keys of \<open>current_entity\<close>: that is always a copy.
\<close>

theorem mergers_leave_input_unchanged:
  "(get_list h predictions = Some ps \<longrightarrow> detections_at h ps xs \<longrightarrow>
      (\<exists>out h' os.
          merge_entities_st predictions h = Some (out, h')
          \<and> take (length h) h' = h
          \<and> length h \<le> out \<and> get_list h' out = Some os
          \<and> (\<forall>a\<in>set os. length h \<le> a)
          \<and> entities_at h' os (merge_entities xs)))
   \<and> (get_list h entities = Some es \<longrightarrow> entities_at h es ys \<longrightarrow>
      (\<exists>out h' os.
          merge_consecutive_entities_st entities h = Some (out, h')
          \<and> take (length h) h' = h
          \<and> length h \<le> out \<and> get_list h' out = Some os
          \<and> (\<forall>a\<in>set os. length h \<le> a)
          \<and> entities_at h' os (merge_consecutive_entities ys)))"
  using merge_entities_st_refines [of h predictions ps xs]
    merge_consecutive_entities_st_refines [of h entities es ys]
  by blast

theorem mergers_leave_input_unchanged_witness:
  "get_list example_store 7 = Some [4, 5, 6]
   \<and> get_list example_store 3 = Some [0, 1, 2]
   \<and> (\<exists>out h'. merge_entities_st 7 example_store = Some (out, h')
          \<and> take (length example_store) h' = example_store)
   \<and> (\<exists>out h'. merge_consecutive_entities_st 3 example_store = Some (out, h')
          \<and> take (length example_store) h' = example_store)"
proof -
  have a: "get_list example_store 7 = Some [4, 5, 6]"
    and b: "get_list example_store 3 = Some [0, 1, 2]"
    by (simp_all add: example_store_def get_list_def lookup_def)
  have c: "detections_at example_store [4, 5, 6] scenario_predictions"
    by (simp add: example_store_def detections_at_def get_detection_def lookup_def
          scenario_predictions_def)
  have d: "entities_at example_store [0, 1, 2]
             (map (\<lambda>a. the (get_entity example_store a)) [0, 1, 2])"
    by (simp add: example_store_def entities_at_def get_entity_def lookup_def)
  from a b c d mergers_leave_input_unchanged
    [of example_store 7 "[4, 5, 6]" scenario_predictions 3 "[0, 1, 2]"
       "map (\<lambda>a. the (get_entity example_store a)) [0, 1, 2]"]
  show ?thesis by blast
qed

text \<open>
  C10. Every entry of \<open>pii_scores\<close> has a count of at least 1 when the averages are
  computed, so the comprehension of lines 161-162 does not raise \<open>ZeroDivisionError\<close> and
  \<open>summarize_pii_batch\<close> returns a result; in every record of the result the keys of
  \<open>avg_scores\<close> are exactly the categories of the group's flattened detections, each once.
\<close>

theorem batch_never_divides_by_zero:
  "list_all (\<lambda>(pii_type, scores). 1 \<le> count scores) (fst (accumulate_all recognizer_results))
   \<and> averages (fst (accumulate_all recognizer_results)) \<noteq> Inl ZeroDivisionError
   \<and> (\<exists>output. summarize_pii_batch set_iter items = Inr output
          \<and> list_all2
               (\<lambda>item s. set (map fst (s_avg_scores s)) =
                            r_entity_type ` set (concat (d_recognizer_results item))
                        \<and> distinct (map fst (s_avg_scores s)))
               items output)"
proof -
  have c: "list_all (\<lambda>(pii_type, scores). 1 \<le> count scores)
             (fst (accumulate_all recognizer_results))"
    by (simp only: accumulate_all_concat counts_accumulated)
  have "list_all2
               (\<lambda>item s. set (map fst (s_avg_scores s)) =
                            r_entity_type ` set (concat (d_recognizer_results item))
                        \<and> distinct (map fst (s_avg_scores s)))
               items (map (summary_of set_iter) items)"
  proof (rule list_all2_map_right)
    fix item
    show "set (map fst (s_avg_scores (summary_of set_iter item))) =
            r_entity_type ` set (concat (d_recognizer_results item))
          \<and> distinct (map fst (s_avg_scores (summary_of set_iter item)))"
      using keys_accumulated [of "concat (d_recognizer_results item)"]
        distinct_keys_accumulated [of "concat (d_recognizer_results item)"]
      by (simp add: keys_avg_scores)
  qed
  with c averages_total [OF c] show ?thesis
    by (simp add: summarize_pii_batch_total)
qed

theorem batch_never_divides_by_zero_witness:
  "map (\<lambda>(pii_type, scores). count scores)
     (fst (accumulate_all (d_recognizer_results (hd example_batch)))) = [2, 1]
   \<and> averages (fst (accumulate_all (d_recognizer_results (hd example_batch))))
       = Inr [(''A'', 7 / 10), (''B'', 1 / 2)]
   \<and> map (\<lambda>s. map fst (s_avg_scores s)) (projr (summarize_pii_batch id example_batch))
       = [[''A'', ''B'']]"
  using batch_never_divides_by_zero [of "d_recognizer_results (hd example_batch)" id example_batch]
  by (simp add: example_batch_def summarize_pii_batch_def summarize_item_def
        accumulate_all_def accumulate_def combined_explanations_def set_add_def Let_def)

end
